theory Spec2Isabelle
  imports Main
begin

section \<open>JavaScript strings and thrown values\<close>

text \<open>
  A JavaScript string is a sequence of UTF-16 code units; \<open>length\<close>, \<open>slice\<close>,
  \<open>indexOf\<close> and the regular expressions of the program (none carries the \<open>u\<close> flag)
  all count code units. A code unit is modelled as a natural number (below 65536 in every
  string the program can receive).
\<close>

type_synonym jschar = nat
type_synonym jsstring = "nat list"

text \<open>ASCII literals of the source are written \<open>js ''...''\<close>.\<close>

definition js :: "string \<Rightarrow> jsstring" where
  "js s = map of_char s"

text \<open>
  A thrown value. Everything the guide subsystem can throw is an \<open>Error\<close> object with a
  \<open>message\<close>: a \<open>TypeError\<close> from \<open>new URL\<close>, a \<open>RangeError\<close> from
  \<open>String.fromCodePoint\<close>, a plain \<open>Error\<close> from a failed fetch.
\<close>

datatype error =
    TypeError (message: jsstring)
  | RangeError (message: jsstring)
  | Error (message: jsstring)

section \<open>String primitives of the platform\<close>

text \<open>
  White space as \<open>String.prototype.trim\<close> and the regular-expression class \<open>\s\<close>
  understand it: TAB, LF, VT, FF, CR, SP, NBSP, U+1680, U+2000 to U+200A, U+2028, U+2029,
  U+202F, U+205F, U+3000 and U+FEFF.
\<close>

definition isWhiteSpace :: "jschar \<Rightarrow> bool" where
  "isWhiteSpace c =
     (c = 9 \<or> c = 10 \<or> c = 11 \<or> c = 12 \<or> c = 13 \<or> c = 32 \<or> c = 160 \<or> c = 5760
      \<or> (8192 \<le> c \<and> c \<le> 8202) \<or> c = 8232 \<or> c = 8233 \<or> c = 8239 \<or> c = 8287
      \<or> c = 12288 \<or> c = 65279)"

definition trim :: "jsstring \<Rightarrow> jsstring" where
  "trim s = rev (dropWhile isWhiteSpace (rev (dropWhile isWhiteSpace s)))"

text \<open>\<open>s.slice(a, b)\<close> for non-negative \<open>a\<close> and \<open>b\<close> (empty when \<open>b \<le> a\<close>).\<close>

definition slice :: "nat \<Rightarrow> nat \<Rightarrow> jsstring \<Rightarrow> jsstring" where
  "slice a b s = take (b - a) (drop a s)"

definition startsWith :: "jsstring \<Rightarrow> jsstring \<Rightarrow> bool" where
  "startsWith s t = (take (length t) s = t)"

text \<open>
  \<open>s.indexOf(t)\<close>, \<open>s.indexOf(t, i)\<close> and \<open>s.includes(t)\<close>. The result \<open>-1\<close> of the
  platform is \<open>None\<close> here.
\<close>

fun indexOf :: "jsstring \<Rightarrow> jsstring \<Rightarrow> nat option" where
  "indexOf [] t = (if t = [] then Some 0 else None)"
| "indexOf (c # cs) t =
     (if startsWith (c # cs) t then Some 0 else map_option Suc (indexOf cs t))"

definition indexOfFrom :: "jsstring \<Rightarrow> jsstring \<Rightarrow> nat \<Rightarrow> nat option" where
  "indexOfFrom s t i = map_option (\<lambda>k. k + min i (length s)) (indexOf (drop i s) t)"

definition includesStr :: "jsstring \<Rightarrow> jsstring \<Rightarrow> bool" where
  "includesStr s t = (indexOf s t \<noteq> None)"

text \<open>
  \<open>s.lastIndexOf(c, i)\<close> for a one-character search string: the greatest index at most
  \<open>i\<close> that holds \<open>c\<close>.
\<close>

fun lastIndexOf :: "jsstring \<Rightarrow> jschar \<Rightarrow> nat \<Rightarrow> nat option" where
  "lastIndexOf s c 0 = (if s \<noteq> [] \<and> hd s = c then Some 0 else None)"
| "lastIndexOf s c (Suc i) =
     (if Suc i < length s \<and> s ! Suc i = c then Some (Suc i) else lastIndexOf s c i)"

text \<open>\<open>[...new Set(arr)]\<close>: the first occurrence of each element, in order.\<close>

fun uniqueAcc :: "'a list \<Rightarrow> 'a list \<Rightarrow> 'a list" where
  "uniqueAcc seen [] = seen"
| "uniqueAcc seen (x # xs) = uniqueAcc (if x \<in> set seen then seen else seen @ [x]) xs"

definition unique :: "'a list \<Rightarrow> 'a list" where
  "unique arr = uniqueAcc [] arr"

subsection \<open>Global regular-expression replacement and matching\<close>

text \<open>
  None of the program's global regular expressions looks behind the position it starts
  at, so each is modelled by a matcher: a function that takes the rest of the input from
  the current position and returns the length of the match starting there, if there is
  one. \<open>replaceAll\<close> is \<open>s.replace(re, rep)\<close> for a global \<open>re\<close> and a replacement
  string without \<open>$\<close>: it scans from the left, replaces the match at the first
  position that has one and goes on behind it (after an empty match, one character
  further, which is copied).
\<close>

type_synonym matcher = "jsstring \<Rightarrow> nat option"

function replaceAll :: "matcher \<Rightarrow> jsstring \<Rightarrow> jsstring \<Rightarrow> jsstring" where
  "replaceAll m rep [] = (case m [] of Some n \<Rightarrow> rep | None \<Rightarrow> [])"
| "replaceAll m rep (c # cs) =
     (case m (c # cs) of
        None \<Rightarrow> c # replaceAll m rep cs
      | Some 0 \<Rightarrow> rep @ c # replaceAll m rep cs
      | Some (Suc k) \<Rightarrow> rep @ replaceAll m rep (drop k cs))"
  by pat_completeness auto
termination
  by (relation "measure (\<lambda>(m, rep, s). length s)") auto

text \<open>\<open>s.match(re)\<close> for a global \<open>re\<close> that cannot match the empty string: all matches.\<close>

function matchAll :: "matcher \<Rightarrow> jsstring \<Rightarrow> jsstring list" where
  "matchAll m [] = []"
| "matchAll m (c # cs) =
     (case m (c # cs) of
        None \<Rightarrow> matchAll m cs
      | Some 0 \<Rightarrow> matchAll m cs
      | Some (Suc k) \<Rightarrow> take (Suc k) (c # cs) # matchAll m (drop k cs))"
  by pat_completeness auto
termination
  by (relation "measure (\<lambda>(m, s). length s)") auto

text \<open>The length of the longest prefix whose characters all satisfy \<open>P\<close>.\<close>

definition run :: "(jschar \<Rightarrow> bool) \<Rightarrow> jsstring \<Rightarrow> nat" where
  "run P s = length (takeWhile P s)"

text \<open>
  \<open>s.replace(re, rep)\<close> for a \<open>re\<close> without the global flag (the first match only; the
  end of the input is a position too), and \<open>re.test(s)\<close>.
\<close>

fun replaceFirst :: "matcher \<Rightarrow> jsstring \<Rightarrow> jsstring \<Rightarrow> jsstring" where
  "replaceFirst m rep [] = (case m [] of Some n \<Rightarrow> rep | None \<Rightarrow> [])"
| "replaceFirst m rep (c # cs) =
     (case m (c # cs) of
        Some n \<Rightarrow> rep @ drop n (c # cs)
      | None \<Rightarrow> c # replaceFirst m rep cs)"

fun test :: "matcher \<Rightarrow> jsstring \<Rightarrow> bool" where
  "test m [] = (m [] \<noteq> None)"
| "test m (c # cs) = (m (c # cs) \<noteq> None \<or> test m cs)"

text \<open>
  Matching under the \<open>i\<close> flag (without the \<open>u\<close> flag): an input character matches an
  ASCII pattern character when their upper-case forms agree, and no character outside
  ASCII is folded onto an ASCII one. \<open>startsWithCI s pat\<close>: the input \<open>s\<close> starts with
  the literal pattern \<open>pat\<close>.
\<close>

definition ciEq :: "jschar \<Rightarrow> jschar \<Rightarrow> bool" where
  "ciEq p c =
     (c = p \<or> (97 \<le> p \<and> p \<le> 122 \<and> c + 32 = p) \<or> (65 \<le> p \<and> p \<le> 90 \<and> c = p + 32))"

definition startsWithCI :: "jsstring \<Rightarrow> jsstring \<Rightarrow> bool" where
  "startsWithCI s pat = (length pat \<le> length s \<and> list_all2 ciEq pat (take (length pat) s))"

text \<open>
  \<open>s.replace(re, f)\<close> for a global \<open>re\<close> and a replacement function \<open>f\<close>, which is
  given the matched text and may throw; the exception of the leftmost throwing call is
  the one that propagates.
\<close>

function replaceAllWith ::
  "matcher \<Rightarrow> (jsstring \<Rightarrow> error + jsstring) \<Rightarrow> jsstring \<Rightarrow> error + jsstring" where
  "replaceAllWith m f [] = (case m [] of Some n \<Rightarrow> f [] | None \<Rightarrow> Inr [])"
| "replaceAllWith m f (c # cs) =
     (case m (c # cs) of
        None \<Rightarrow>
          (case replaceAllWith m f cs of Inl e \<Rightarrow> Inl e | Inr t \<Rightarrow> Inr (c # t))
      | Some 0 \<Rightarrow>
          (case f [] of
             Inl e \<Rightarrow> Inl e
           | Inr rep \<Rightarrow>
               (case replaceAllWith m f cs of Inl e \<Rightarrow> Inl e | Inr t \<Rightarrow> Inr (rep @ c # t)))
      | Some (Suc k) \<Rightarrow>
          (case f (take (Suc k) (c # cs)) of
             Inl e \<Rightarrow> Inl e
           | Inr rep \<Rightarrow>
               (case replaceAllWith m f (drop k cs) of
                  Inl e \<Rightarrow> Inl e
                | Inr t \<Rightarrow> Inr (rep @ t))))"
  by pat_completeness auto
termination
  by (relation "measure (\<lambda>(m, f, s). length s)") auto

text \<open>The first position from which the rest of the input satisfies \<open>P\<close>.\<close>

fun indexWhere :: "(jsstring \<Rightarrow> bool) \<Rightarrow> jsstring \<Rightarrow> nat option" where
  "indexWhere P [] = (if P [] then Some 0 else None)"
| "indexWhere P (c # cs) = (if P (c # cs) then Some 0 else map_option Suc (indexWhere P cs))"

text \<open>The classes \<open>\w\<close>, \<open>\d\<close>, \<open>[0-9a-fA-F]\<close> and \<open>[a-zA-Z0-9#]\<close>.\<close>

definition isDigit :: "jschar \<Rightarrow> bool" where
  "isDigit c = (48 \<le> c \<and> c \<le> 57)"

definition isLetter :: "jschar \<Rightarrow> bool" where
  "isLetter c = ((97 \<le> c \<and> c \<le> 122) \<or> (65 \<le> c \<and> c \<le> 90))"

definition isWordChar :: "jschar \<Rightarrow> bool" where
  "isWordChar c = (isLetter c \<or> isDigit c \<or> c = 95)"

definition isHexDigit :: "jschar \<Rightarrow> bool" where
  "isHexDigit c = (isDigit c \<or> (97 \<le> c \<and> c \<le> 102) \<or> (65 \<le> c \<and> c \<le> 70))"

definition isEntityNameChar :: "jschar \<Rightarrow> bool" where
  "isEntityNameChar c = (isLetter c \<or> isDigit c \<or> c = 35)"

section \<open>Text normalizer\<close>

text \<open>\<open>/\r\n?/g\<close>\<close>

definition re_crlf :: matcher where
  "re_crlf s =
     (case s of
        [] \<Rightarrow> None
      | c # r \<Rightarrow> if c = 13 then (if startsWith r [10] then Some 2 else Some 1) else None)"

text \<open>
  \<open>/[ \t]+\n/g\<close>: the greedy run of blanks must be followed by a line feed (a shorter
  run is followed by a blank, so backtracking finds nothing more).
\<close>

definition isBlank :: "jschar \<Rightarrow> bool" where
  "isBlank c = (c = 32 \<or> c = 9)"

definition re_blanks_nl :: matcher where
  "re_blanks_nl s =
     (let k = run isBlank s in
      if 1 \<le> k \<and> startsWith (drop k s) [10] then Some (k + 1) else None)"

text \<open>\<open>/\n{3,}/g\<close>\<close>

definition re_nl3 :: matcher where
  "re_nl3 s = (let k = run (\<lambda>c. c = 10) s in if 3 \<le> k then Some k else None)"

text \<open>\<open>normalizeMultiline\<close> (its argument is always a string in the guide subsystem).\<close>

definition normalizeMultiline :: "jsstring \<Rightarrow> jsstring" where
  "normalizeMultiline v =
     trim (replaceAll re_nl3 [10, 10] (replaceAll re_blanks_nl [10] (replaceAll re_crlf [10] v)))"

subsection \<open>Entities\<close>

text \<open>
  The table \<open>htmlEntityMap\<close>. The source looks names up with \<open>htmlEntityMap[name]\<close>, on
  an object literal, so the seven names that \<open>Object.prototype\<close> defines and that the
  expression \<open>[a-zA-Z0-9#]+\<close> can match are found too; their values are built-in
  functions, which are truthy, and the replacement is the text the platform prints for
  such a function.
\<close>

definition htmlEntityMap :: "jsstring \<Rightarrow> jsstring option" where
  "htmlEntityMap name =
     (if name = js ''amp'' then Some (js ''&'')
      else if name = js ''lt'' then Some (js ''<'')
      else if name = js ''gt'' then Some (js ''>'')
      else if name = js ''quot'' then Some [34]
      else if name = js ''apos'' then Some [39]
      else if name = js ''nbsp'' then Some (js '' '')
      else if name = js ''#39'' then Some [39]
      else if name = js ''constructor'' then Some (js ''function Object() { [native code] }'')
      else if name \<in> set [js ''hasOwnProperty'', js ''isPrototypeOf'',
                js ''propertyIsEnumerable'', js ''toLocaleString'', js ''toString'',
                js ''valueOf'']
      then Some (js ''function '' @ name @ js ''() { [native code] }'')
      else None)"

text \<open>
  The value of a string of decimal or hexadecimal digits, as a mathematical integer.
  \<open>Number(n)\<close> and \<open>parseInt(n, 16)\<close> round it to the nearest double, which is infinite
  from \<open>2^1024 - 2^970\<close> on and an integer beyond the code points otherwise.
\<close>

definition digitValue :: "jschar \<Rightarrow> nat" where
  "digitValue c =
     (if 48 \<le> c \<and> c \<le> 57 then c - 48
      else if 97 \<le> c \<and> c \<le> 102 then c - 87
      else c - 55)"

definition digitsValue :: "nat \<Rightarrow> jsstring \<Rightarrow> nat" where
  "digitsValue radix n = foldl (\<lambda>a c. radix * a + digitValue c) 0 n"

definition isFiniteNumber :: "nat \<Rightarrow> bool" where
  "isFiniteNumber v = (v < 2 ^ 1024 - 2 ^ 970)"

text \<open>
  \<open>String.fromCodePoint\<close>: one code unit, or a surrogate pair above U+FFFF; a
  \<open>RangeError\<close> above U+10FFFF (its message names the number, which is left out here).
\<close>

definition fromCodePoint :: "nat \<Rightarrow> error + jsstring" where
  "fromCodePoint cp =
     (if cp \<le> 65535 then Inr [cp]
      else if cp \<le> 1114111
      then Inr [55296 + (cp - 65536) div 1024, 56320 + (cp - 65536) mod 1024]
      else Inl (RangeError (js ''Invalid code point'')))"

text \<open>\<open>/&#(\d+);/g\<close>, \<open>/&#x([0-9a-fA-F]+);/g\<close> and \<open>/&([a-zA-Z0-9#]+);/g\<close>.\<close>

definition re_dec_entity :: matcher where
  "re_dec_entity s =
     (if startsWith s (js ''&#'') then
        (let k = run isDigit (drop 2 s) in
         if 1 \<le> k \<and> startsWith (drop (2 + k) s) (js '';'') then Some (2 + k + 1) else None)
      else None)"

definition re_hex_entity :: matcher where
  "re_hex_entity s =
     (if startsWith s (js ''&#x'') then
        (let k = run isHexDigit (drop 3 s) in
         if 1 \<le> k \<and> startsWith (drop (3 + k) s) (js '';'') then Some (3 + k + 1) else None)
      else None)"

definition re_named_entity :: matcher where
  "re_named_entity s =
     (if startsWith s (js ''&'') then
        (let k = run isEntityNameChar (drop 1 s) in
         if 1 \<le> k \<and> startsWith (drop (1 + k) s) (js '';'') then Some (1 + k + 1) else None)
      else None)"

text \<open>
  \<open>decodeHtmlEntities\<close>. Each replacement function gets the matched text \<open>mt\<close>; the
  group is the matched text without its first two (three, one) characters and its last.
\<close>

definition decodeHtmlEntities :: "jsstring \<Rightarrow> error + jsstring" where
  "decodeHtmlEntities input =
     (case replaceAllWith re_dec_entity
             (\<lambda>mt. let code = digitsValue 10 (butlast (drop 2 mt))
                   in if isFiniteNumber code then fromCodePoint code else Inr mt) input of
        Inl e \<Rightarrow> Inl e
      | Inr s1 \<Rightarrow>
          (case replaceAllWith re_hex_entity
                  (\<lambda>mt. let code = digitsValue 16 (butlast (drop 3 mt))
                        in if isFiniteNumber code then fromCodePoint code else Inr mt) s1 of
             Inl e \<Rightarrow> Inl e
           | Inr s2 \<Rightarrow>
               replaceAllWith re_named_entity
                 (\<lambda>mt. case htmlEntityMap (butlast (drop 1 mt)) of
                         Some v \<Rightarrow> Inr v
                       | None \<Rightarrow> Inr mt) s2))"

subsection \<open>Tags\<close>

text \<open>
  \<open>/<script\b[^>]*>[\s\S]*?<\/script>/gi\<close> and the same for \<open>style\<close>: the opening name
  is followed by a word boundary, the attributes run to the first \<open>>\<close>, and the
  lazy body runs to the first closing tag.
\<close>

definition re_block :: "jsstring \<Rightarrow> matcher" where
  "re_block name s =
     (if startsWithCI s (js ''<'' @ name) then
        (let r = drop (1 + length name) s in
         if r \<noteq> [] \<and> isWordChar (hd r) then None
         else
           (let k = run (\<lambda>c. c \<noteq> 62) r in
            if k < length r then
              (case indexWhere (\<lambda>t. startsWithCI t (js ''</'' @ name @ js ''>''))
                      (drop (k + 1) r) of
                 None \<Rightarrow> None
               | Some j \<Rightarrow> Some (1 + length name + k + 1 + j + (length name + 3)))
            else None))
      else None)"

text \<open>\<open>/<br\s*\/?>/gi\<close>\<close>

definition re_br :: matcher where
  "re_br s =
     (if startsWithCI s (js ''<br'') then
        (let k = run isWhiteSpace (drop 3 s) in
         if startsWith (drop (3 + k) s) (js ''/>'') then Some (3 + k + 2)
         else if startsWith (drop (3 + k) s) (js ''>'') then Some (3 + k + 1)
         else None)
      else None)"

text \<open>\<open>/<\/(p|div|section|article|li|h[1-6]|tr)>/gi\<close>\<close>

definition re_block_close :: matcher where
  "re_block_close s =
     (if startsWithCI s (js ''</'') then
        (let r = drop 2 s in
         if startsWithCI r (js ''p>'') then Some 4
         else if startsWithCI r (js ''div>'') then Some 6
         else if startsWithCI r (js ''section>'') then Some 10
         else if startsWithCI r (js ''article>'') then Some 10
         else if startsWithCI r (js ''li>'') then Some 5
         else if startsWithCI r (js ''h'') \<and> 3 \<le> length r \<and> 49 \<le> r ! 1 \<and> r ! 1 \<le> 54
                 \<and> r ! 2 = 62 then Some 5
         else if startsWithCI r (js ''tr>'') then Some 5
         else None)
      else None)"

text \<open>\<open>/<[^>]*>/g\<close>: from a \<open><\<close> to the first \<open>>\<close> behind it.\<close>

definition re_tag :: matcher where
  "re_tag s =
     (case s of
        [] \<Rightarrow> None
      | c # r \<Rightarrow>
          if c = 60 \<and> run (\<lambda>c. c \<noteq> 62) r < length r
          then Some (1 + run (\<lambda>c. c \<noteq> 62) r + 1)
          else None)"

text \<open>\<open>/[ \t]{2,}/g\<close> and \<open>/\n[ \t]+/g\<close>\<close>

definition re_blank2 :: matcher where
  "re_blank2 s = (let k = run isBlank s in if 2 \<le> k then Some k else None)"

definition re_nl_blanks :: matcher where
  "re_nl_blanks s =
     (case s of
        [] \<Rightarrow> None
      | c # r \<Rightarrow> if c = 10 \<and> 1 \<le> run isBlank r then Some (1 + run isBlank r) else None)"

text \<open>
  \<open>stripHtmlToText\<close>: \<open>stripTags\<close> is the chain of the five replacements on the
  argument of \<open>decodeHtmlEntities\<close>.
\<close>

definition stripTags :: "jsstring \<Rightarrow> jsstring" where
  "stripTags html =
     replaceAll re_tag (js '' '')
       (replaceAll re_block_close [10]
          (replaceAll re_br [10]
             (replaceAll (re_block (js ''style'')) (js '' '')
                (replaceAll (re_block (js ''script'')) (js '' '') html))))"

definition stripHtmlToText :: "jsstring \<Rightarrow> error + jsstring" where
  "stripHtmlToText html =
     (case decodeHtmlEntities (stripTags html) of
        Inl e \<Rightarrow> Inl e
      | Inr d \<Rightarrow>
          Inr (normalizeMultiline (replaceAll re_nl_blanks [10] (replaceAll re_blank2 (js '' '') d))))"

text \<open>\<open>cleanInline\<close>, with \<open>/\s+/g\<close>.\<close>

definition re_spaces :: matcher where
  "re_spaces s = (let k = run isWhiteSpace s in if 1 \<le> k then Some k else None)"

definition cleanInline :: "jsstring \<Rightarrow> jsstring" where
  "cleanInline v = trim (replaceAll re_spaces (js '' '') v)"

subsection \<open>Text with well-formed entity references\<close>

text \<open>
  The text between the tags of a page that writes its entities properly is a sequence
  of pieces: plain text without an ampersand, and references \<open>&#NNN;\<close>, \<open>&#xHEX;\<close> and
  \<open>&name;\<close>. \<open>written\<close> is a piece as it stands in the page.
\<close>

datatype piece = Plain jsstring | Decimal jsstring | Hexadecimal jsstring | Named jsstring

fun written :: "piece \<Rightarrow> jsstring" where
  "written (Plain s) = s"
| "written (Decimal ds) = js ''&#'' @ ds @ js '';''"
| "written (Hexadecimal hs) = js ''&#x'' @ hs @ js '';''"
| "written (Named n) = js ''&'' @ n @ js '';''"

text \<open>
  What a reference stands for, as the specification words it: a numeric reference
  stands for the character of that code point (one code unit, or a surrogate pair above
  U+FFFF), a named one for its entry in the fixed table. The entry \<open>#39\<close> of the table is
  the decimal reference 39.
\<close>

definition spec_namedEntities :: "(jsstring \<times> jsstring) list" where
  "spec_namedEntities =
     [(js ''amp'', js ''&''), (js ''lt'', js ''<''), (js ''gt'', js ''>''),
      (js ''quot'', [34]), (js ''apos'', [39]), (js ''nbsp'', js '' '')]"

definition codeUnits :: "nat \<Rightarrow> jsstring" where
  "codeUnits cp =
     (if cp \<le> 65535 then [cp]
      else [55296 + (cp - 65536) div 1024, 56320 + (cp - 65536) mod 1024])"

fun decoded :: "piece \<Rightarrow> jsstring" where
  "decoded (Plain s) = s"
| "decoded (Decimal ds) = codeUnits (digitsValue 10 ds)"
| "decoded (Hexadecimal hs) = codeUnits (digitsValue 16 hs)"
| "decoded (Named n) =
     (case map_of spec_namedEntities n of Some v \<Rightarrow> v | None \<Rightarrow> written (Named n))"

text \<open>
  A well-formed piece: plain text holds no ampersand, a numeric reference holds at least
  one digit and names a code point up to U+10FFFF, a name is in the table. A numeric
  reference to the ampersand itself (code point 38) is left out: the decoder would read
  the ampersand it stands for once more, as the start of a reference of a later kind.
\<close>

fun wellFormed :: "piece \<Rightarrow> bool" where
  "wellFormed (Plain s) = (38 \<notin> set s)"
| "wellFormed (Decimal ds) =
     (ds \<noteq> [] \<and> list_all isDigit ds \<and> digitsValue 10 ds \<le> 1114111 \<and> digitsValue 10 ds \<noteq> 38)"
| "wellFormed (Hexadecimal hs) =
     (hs \<noteq> [] \<and> list_all isHexDigit hs \<and> digitsValue 16 hs \<le> 1114111
      \<and> digitsValue 16 hs \<noteq> 38)"
| "wellFormed (Named n) = (map_of spec_namedEntities n \<noteq> None)"

text \<open>
  The pieces that are references.
\<close>

fun isReference :: "piece \<Rightarrow> bool" where
  "isReference (Plain s) = False"
| "isReference p = True"

text \<open>
  A piece after the first \<open>k\<close> of the three replacements of \<open>decodeHtmlEntities\<close>.
\<close>

fun decodedAfter :: "nat \<Rightarrow> piece \<Rightarrow> jsstring" where
  "decodedAfter k (Plain s) = s"
| "decodedAfter k (Decimal ds) = (if 1 \<le> k then decoded (Decimal ds) else written (Decimal ds))"
| "decodedAfter k (Hexadecimal hs) =
     (if 2 \<le> k then decoded (Hexadecimal hs) else written (Hexadecimal hs))"
| "decodedAfter k (Named n) = (if 3 \<le> k then decoded (Named n) else written (Named n))"

section \<open>Configuration and data model\<close>

text \<open>
  The module-level constants read from the process environment at start-up. The numeric
  ones are taken as integers (the defaults are 24 pages and 21600000 ms).
\<close>

record config =
  GUIDE_ROOT_URL :: jsstring
  GUIDE_CONTEXT_ENABLED :: bool
  GUIDE_MAX_PAGES :: int
  GUIDE_CACHE_TTL_MS :: int

text \<open>A page record \<open>{ url, title, text }\<close> pushed by the crawler.\<close>

record page =
  page_url :: jsstring
  page_title :: jsstring
  page_text :: jsstring

text \<open>The module-level object \<open>guideCache\<close> and its initial value.\<close>

record guideCache =
  pages :: "page list"
  fetchedAt :: int
  expiresAt :: int
  lastError :: jsstring

definition guideCache0 :: guideCache where
  "guideCache0 = \<lparr>pages = [], fetchedAt = 0, expiresAt = 0, lastError = []\<rparr>"

section \<open>Scope filter\<close>

text \<open>
  The fields of a \<open>URL\<close> object that the program reads. The parser \<open>new URL(s)\<close> is the
  platform's and a parameter of the model: \<open>None\<close> stands for the \<open>TypeError\<close> it throws
  on a string that is not a URL.
\<close>

record url =
  href :: jsstring
  host :: jsstring
  pathname :: jsstring

text \<open>\<open>/[^/]*$/\<close>: the rest of the input, if it holds no slash.\<close>

definition re_last_segment :: matcher where
  "re_last_segment s = (if run (\<lambda>c. c \<noteq> 47) s = length s then Some (length s) else None)"

text \<open>\<open>/(\.html?$|\/$)/i\<close>: the rest of the input is \<open>.htm\<close>, \<open>.html\<close> or a slash.\<close>

definition re_doc :: matcher where
  "re_doc s =
     (if (length s = 4 \<and> startsWithCI s (js ''.htm''))
         \<or> (length s = 5 \<and> startsWithCI s (js ''.html''))
      then Some (length s)
      else if s = [47] then Some 1
      else None)"

definition isAllowedGuideUrl ::
  "(jsstring \<Rightarrow> url option) \<Rightarrow> config \<Rightarrow> jsstring \<Rightarrow> error + bool" where
  "isAllowedGuideUrl newURL cfg u_str =
     (case newURL (GUIDE_ROOT_URL cfg) of
        None \<Rightarrow> Inl (TypeError (js ''Invalid URL''))
      | Some root \<Rightarrow>
          (case newURL u_str of
             None \<Rightarrow> Inl (TypeError (js ''Invalid URL''))
           | Some u \<Rightarrow>
               Inr (if host u \<noteq> host root then False
                    else
                      (let rootDir =
                             (if pathname root \<noteq> [] \<and> last (pathname root) = 47
                              then pathname root
                              else replaceFirst re_last_segment [] (pathname root))
                       in if \<not> startsWith (pathname u) rootDir then False
                          else if \<not> test re_doc (pathname u) then False
                          else True))))"

text \<open>
  The same test as the specification words it: the directory prefix is the root path
  with its final segment removed, and the path must end in \<open>.htm\<close>, \<open>.html\<close> (in any
  case) or a slash.
\<close>

definition spec_rootDir :: "jsstring \<Rightarrow> jsstring" where
  "spec_rootDir path = rev (dropWhile (\<lambda>c. c \<noteq> 47) (rev path))"

definition endsWithCI :: "jsstring \<Rightarrow> jsstring \<Rightarrow> bool" where
  "endsWithCI s pat =
     (length pat \<le> length s \<and> list_all2 ciEq pat (drop (length s - length pat) s))"

definition spec_allowed :: "url \<Rightarrow> url \<Rightarrow> bool" where
  "spec_allowed root u =
     (host u = host root
      \<and> startsWith (pathname u) (spec_rootDir (pathname root))
      \<and> (endsWithCI (pathname u) (js ''.htm'') \<or> endsWithCI (pathname u) (js ''.html'')
         \<or> endsWithCI (pathname u) (js ''/'')))"

section \<open>Link and title extractor\<close>

text \<open>
  \<open>s.match(re)\<close> for a \<open>re\<close> without the global flag, where only the first group of the
  match is used: the matcher returns that group.
\<close>

fun firstCapture :: "(jsstring \<Rightarrow> 'a option) \<Rightarrow> jsstring \<Rightarrow> 'a option" where
  "firstCapture m [] = m []"
| "firstCapture m (c # cs) =
     (case m (c # cs) of Some g \<Rightarrow> Some g | None \<Rightarrow> firstCapture m cs)"

text \<open>\<open>/<title[^>]*>([\s\S]*?)<\/title>/i\<close>: the group is the lazy body.\<close>

definition re_title :: "jsstring \<Rightarrow> jsstring option" where
  "re_title s =
     (if startsWithCI s (js ''<title'') then
        (let r = drop 6 s; k = run (\<lambda>c. c \<noteq> 62) r in
         if k < length r then
           (case indexWhere (\<lambda>t. startsWithCI t (js ''</title>'')) (drop (k + 1) r) of
              None \<Rightarrow> None
            | Some j \<Rightarrow> Some (take j (drop (k + 1) r)))
         else None)
      else None)"

definition extractTitleFromHtml :: "jsstring \<Rightarrow> jsstring \<Rightarrow> error + jsstring" where
  "extractTitleFromHtml html fallback =
     (case firstCapture re_title html of
        None \<Rightarrow> Inr fallback
      | Some g \<Rightarrow>
          (case decodeHtmlEntities g of
             Inl e \<Rightarrow> Inl e
           | Inr d \<Rightarrow> (let title = cleanInline d in Inr (if title \<noteq> [] then title else fallback))))"

text \<open>
  The loop \<open>while ((m = re.exec(s)) !== null)\<close> for a global \<open>re\<close> that cannot match the
  empty string; the matcher returns the length of the match and the value the loop body
  reads from it.
\<close>

function execAll :: "(jsstring \<Rightarrow> (nat \<times> 'a) option) \<Rightarrow> jsstring \<Rightarrow> 'a list" where
  "execAll m [] = []"
| "execAll m (c # cs) =
     (case m (c # cs) of
        None \<Rightarrow> execAll m cs
      | Some (n, x) \<Rightarrow> x # execAll m (drop (n - 1) cs))"
  by pat_completeness auto
termination
  by (relation "measure (\<lambda>(m, s). length s)") auto

text \<open>
  \<open>/href\s*=\s*(?:"([^"]+)"|'([^']+)'|([^\s>]+))/gi\<close>, with
  \<open>raw = m[1] || m[2] || m[3] || ''\<close>: a non-empty value between double quotes, or
  between single quotes, or else the longest non-empty run of characters that are neither
  white space nor \<open>>\<close> (which may start with a quote).
\<close>

definition re_href :: "jsstring \<Rightarrow> (nat \<times> jsstring) option" where
  "re_href s =
     (if startsWithCI s (js ''href'') then
        (let k1 = run isWhiteSpace (drop 4 s) in
         if startsWith (drop (4 + k1) s) (js ''='') then
           (let k2 = run isWhiteSpace (drop (4 + k1 + 1) s);
                pre = 4 + k1 + 1 + k2
            in case drop pre s of
                 [] \<Rightarrow> None
               | q # r \<Rightarrow>
                   if q = 34 \<and> 1 \<le> run (\<lambda>c. c \<noteq> 34) r \<and> run (\<lambda>c. c \<noteq> 34) r < length r
                   then Some (pre + 1 + run (\<lambda>c. c \<noteq> 34) r + 1, take (run (\<lambda>c. c \<noteq> 34) r) r)
                   else if q = 39 \<and> 1 \<le> run (\<lambda>c. c \<noteq> 39) r \<and> run (\<lambda>c. c \<noteq> 39) r < length r
                   then Some (pre + 1 + run (\<lambda>c. c \<noteq> 39) r + 1, take (run (\<lambda>c. c \<noteq> 39) r) r)
                   else
                     (let k = run (\<lambda>c. \<not> isWhiteSpace c \<and> c \<noteq> 62) (q # r) in
                      if 1 \<le> k then Some (pre + k, take k (q # r)) else None))
         else None)
      else None)"

text \<open>
  The body of the loop of \<open>extractHrefLinks\<close>. \<open>resolveURL raw currentUrl\<close> stands for
  the platform's \<open>new URL(raw, currentUrl)\<close> with \<open>hash\<close> and \<open>search\<close> cleared, read
  through \<open>href\<close>; \<open>None\<close> when the constructor throws, which the source ignores.
\<close>

fun hrefLoop :: "(jsstring \<Rightarrow> jsstring \<Rightarrow> jsstring option) \<Rightarrow> jsstring \<Rightarrow> jsstring list \<Rightarrow> jsstring list" where
  "hrefLoop resolveURL currentUrl [] = []"
| "hrefLoop resolveURL currentUrl (raw # raws) =
     (if raw = [] \<or> startsWith raw (js ''#'') \<or> startsWith raw (js ''javascript:'')
         \<or> startsWith raw (js ''mailto:'')
      then hrefLoop resolveURL currentUrl raws
      else
        (case resolveURL raw currentUrl of
           None \<Rightarrow> hrefLoop resolveURL currentUrl raws
         | Some resolved \<Rightarrow> resolved # hrefLoop resolveURL currentUrl raws))"

definition extractHrefLinks ::
  "(jsstring \<Rightarrow> jsstring \<Rightarrow> jsstring option) \<Rightarrow> jsstring \<Rightarrow> jsstring \<Rightarrow> jsstring list" where
  "extractHrefLinks resolveURL html currentUrl =
     unique (hrefLoop resolveURL currentUrl (execAll re_href html))"

section \<open>Crawler\<close>

text \<open>
  The three local variables of \<open>crawlGuidePages\<close>; \<open>visited\<close> is a \<open>Set\<close>, kept as the
  list of its elements in insertion order.
\<close>

record crawlState =
  crawl_visited :: "jsstring list"
  crawl_queue :: "jsstring list"
  crawl_pages :: "page list"

text \<open>
  \<open>.filter((next) => !visited.has(next) && isAllowedGuideUrl(next))\<close>; the second test is
  made only for an unvisited link, and may throw.
\<close>

fun filterLinks ::
  "(jsstring \<Rightarrow> url option) \<Rightarrow> config \<Rightarrow> jsstring list \<Rightarrow> jsstring list \<Rightarrow> error + jsstring list" where
  "filterLinks newURL cfg visited [] = Inr []"
| "filterLinks newURL cfg visited (next # rest) =
     (if next \<in> set visited then filterLinks newURL cfg visited rest
      else
        (case isAllowedGuideUrl newURL cfg next of
           Inl e \<Rightarrow> Inl e
         | Inr ok \<Rightarrow>
             (case filterLinks newURL cfg visited rest of
                Inl e \<Rightarrow> Inl e
              | Inr ls \<Rightarrow> Inr (if ok then next # ls else ls))))"

text \<open>
  One turn of the \<open>while\<close> loop, for a non-empty queue. \<open>fetch url w\<close> is
  \<open>await abortableFetchText(url)\<close>: it acts on the outside world \<open>w\<close> and returns the
  text of the response or throws. An exception inside the \<open>try\<close> block ends the turn with
  what was done before it; the test \<open>isAllowedGuideUrl(url)\<close> before the block is not
  guarded, and its exception leaves the crawl.
\<close>

definition crawlStep ::
  "(jsstring \<Rightarrow> url option) \<Rightarrow> (jsstring \<Rightarrow> jsstring \<Rightarrow> jsstring option)
     \<Rightarrow> (jsstring \<Rightarrow> 'w \<Rightarrow> (error + jsstring) \<times> 'w) \<Rightarrow> config
     \<Rightarrow> crawlState \<times> 'w \<Rightarrow> error + crawlState \<times> 'w" where
  "crawlStep newURL resolveURL fetch cfg s =
     (case s of (st, w) \<Rightarrow>
        (case crawl_queue st of
           [] \<Rightarrow> Inr (st, w)
         | u # rest \<Rightarrow>
             if u = [] \<or> u \<in> set (crawl_visited st) then Inr (st\<lparr>crawl_queue := rest\<rparr>, w)
             else
               (let st1 = st\<lparr>crawl_queue := rest, crawl_visited := crawl_visited st @ [u]\<rparr> in
                case isAllowedGuideUrl newURL cfg u of
                  Inl e \<Rightarrow> Inl e
                | Inr False \<Rightarrow> Inr (st1, w)
                | Inr True \<Rightarrow>
                    (case fetch u w of
                       (Inl e, w') \<Rightarrow> Inr (st1, w')
                     | (Inr html, w') \<Rightarrow>
                         (case extractTitleFromHtml html u of
                            Inl e \<Rightarrow> Inr (st1, w')
                          | Inr title \<Rightarrow>
                              (case stripHtmlToText html of
                                 Inl e \<Rightarrow> Inr (st1, w')
                               | Inr text \<Rightarrow>
                                   (let st2 =
                                          (if length text > 80
                                           then st1\<lparr>crawl_pages := crawl_pages st1
                                                  @ [\<lparr>page_url = u, page_title = title,
                                                      page_text = take 12000 text\<rparr>]\<rparr>
                                           else st1)
                                    in case filterLinks newURL cfg (crawl_visited st2)
                                              (extractHrefLinks resolveURL html u) of
                                         Inl e \<Rightarrow> Inr (st2, w')
                                       | Inr links \<Rightarrow>
                                           Inr (st2\<lparr>crawl_queue := crawl_queue st2 @ take 60 links\<rparr>,
                                                w'))))))))"

text \<open>The condition of the \<open>while\<close> loop.\<close>

definition crawlGoesOn :: "config \<Rightarrow> crawlState \<Rightarrow> bool" where
  "crawlGoesOn cfg st =
     (crawl_queue st \<noteq> [] \<and> int (length (crawl_pages st)) < GUIDE_MAX_PAGES cfg)"

text \<open>
  The loop. It need not end (a site can hand out new in-scope links for ever on pages too
  short to count), so it is a partial function: \<open>None\<close> is a crawl that does not return.
\<close>

partial_function (option) crawlLoop ::
  "(jsstring \<Rightarrow> url option) \<Rightarrow> (jsstring \<Rightarrow> jsstring \<Rightarrow> jsstring option)
     \<Rightarrow> (jsstring \<Rightarrow> 'w \<Rightarrow> (error + jsstring) \<times> 'w) \<Rightarrow> config
     \<Rightarrow> crawlState \<times> 'w \<Rightarrow> ((error + page list) \<times> 'w) option" where
  "crawlLoop newURL resolveURL fetch cfg s =
     (if crawlGoesOn cfg (fst s) then
        (case crawlStep newURL resolveURL fetch cfg s of
           Inl e \<Rightarrow> Some (Inl e, snd s)
         | Inr s' \<Rightarrow> crawlLoop newURL resolveURL fetch cfg s')
      else Some (Inr (crawl_pages (fst s)), snd s))"

declare crawlLoop.simps [code]

text \<open>\<open>crawlGuidePages\<close>; \<open>new URL(GUIDE_ROOT_URL).href\<close> throws on a root that is no URL.\<close>

definition crawlStart :: "url \<Rightarrow> crawlState" where
  "crawlStart root = \<lparr>crawl_visited = [], crawl_queue = [href root], crawl_pages = []\<rparr>"

definition crawlGuidePages ::
  "(jsstring \<Rightarrow> url option) \<Rightarrow> (jsstring \<Rightarrow> jsstring \<Rightarrow> jsstring option)
     \<Rightarrow> (jsstring \<Rightarrow> 'w \<Rightarrow> (error + jsstring) \<times> 'w) \<Rightarrow> config
     \<Rightarrow> 'w \<Rightarrow> ((error + page list) \<times> 'w) option" where
  "crawlGuidePages newURL resolveURL fetch cfg w =
     (case newURL (GUIDE_ROOT_URL cfg) of
        None \<Rightarrow> Some (Inl (TypeError (js ''Invalid URL'')), w)
      | Some root \<Rightarrow> crawlLoop newURL resolveURL fetch cfg (crawlStart root, w))"

text \<open>
  The state after the first \<open>n\<close> turns of the loop (or when the loop has stopped, if that
  is earlier): every state a run passes through is one of these.
\<close>

fun crawlTurns ::
  "nat \<Rightarrow> (jsstring \<Rightarrow> url option) \<Rightarrow> (jsstring \<Rightarrow> jsstring \<Rightarrow> jsstring option)
     \<Rightarrow> (jsstring \<Rightarrow> 'w \<Rightarrow> (error + jsstring) \<times> 'w) \<Rightarrow> config
     \<Rightarrow> crawlState \<times> 'w \<Rightarrow> error + crawlState \<times> 'w" where
  "crawlTurns 0 newURL resolveURL fetch cfg s = Inr s"
| "crawlTurns (Suc n) newURL resolveURL fetch cfg s =
     (if crawlGoesOn cfg (fst s) then
        (case crawlStep newURL resolveURL fetch cfg s of
           Inl e \<Rightarrow> Inl e
         | Inr s' \<Rightarrow> crawlTurns n newURL resolveURL fetch cfg s')
      else Inr s)"

text \<open>
  A world that records the URLs fetched, in order, on top of a site that answers each URL
  with a text or a failure.
\<close>

definition fetchLogged ::
  "(jsstring \<Rightarrow> error + jsstring) \<Rightarrow> jsstring \<Rightarrow> jsstring list \<Rightarrow> (error + jsstring) \<times> jsstring list" where
  "fetchLogged site u fetched = (site u, fetched @ [u])"

section \<open>Guide cache\<close>

text \<open>
  \<open>getGuidePages\<close>. The state is the cache together with the outside world \<open>w\<close> that a
  crawl acts on; \<open>await crawlGuidePages()\<close> is passed in as \<open>crawl\<close>, the effect it has
  on that world (it returns its pages, or throws). \<open>now\<close> is the value read from \<open>Date.now()\<close>.
  The result is the returned array, the cache and the world after the call.
  \<open>err && err.message ? err.message : 'guide crawl failed'\<close> takes the fallback exactly
  when the message is the empty string; \<open>guideCache.pages || []\<close> is the array itself.
\<close>

definition getGuidePages ::
  "config \<Rightarrow> ('w \<Rightarrow> (error + page list) \<times> 'w) \<Rightarrow> int \<Rightarrow> guideCache \<times> 'w
     \<Rightarrow> page list \<times> guideCache \<times> 'w" where
  "getGuidePages cfg crawl now s =
     (case s of (cache, w) \<Rightarrow>
        if \<not> GUIDE_CONTEXT_ENABLED cfg then ([], cache, w)
        else if pages cache \<noteq> [] \<and> expiresAt cache > now then (pages cache, cache, w)
        else
          (case crawl w of
             (Inr ps, w') \<Rightarrow>
               (ps,
                cache\<lparr>pages := ps, fetchedAt := now,
                  expiresAt := now + GUIDE_CACHE_TTL_MS cfg, lastError := []\<rparr>,
                w')
           | (Inl err, w') \<Rightarrow>
               (pages cache,
                cache\<lparr>lastError :=
                    (if message err \<noteq> [] then message err else js ''guide crawl failed''),
                  fetchedAt := now,
                  expiresAt := now + min (5 * 60 * 1000) (GUIDE_CACHE_TTL_MS cfg)\<rparr>,
                w')))"

text \<open>
  A sequence of calls, one for each reading of the clock in \<open>nows\<close>, each acting on the
  state its predecessor left; the result lists what each call returned.
\<close>

fun getGuidePagesCalls ::
  "config \<Rightarrow> ('w \<Rightarrow> (error + page list) \<times> 'w) \<Rightarrow> int list \<Rightarrow> guideCache \<times> 'w
     \<Rightarrow> page list list" where
  "getGuidePagesCalls cfg crawl [] s = []"
| "getGuidePagesCalls cfg crawl (now # nows) s =
     (case getGuidePages cfg crawl now s of
        (r, s') \<Rightarrow> r # getGuidePagesCalls cfg crawl nows s')"

section \<open>Snippets\<close>

text \<open>
  The loop \<open>for (const tk of tokens)\<close> of \<open>pickGuideSnippet\<close>, with the variable
  \<open>hit\<close> (\<open>None\<close> for \<open>-1\<close>). \<open>toLowerCase\<close> is the platform's function, a parameter.
\<close>

fun hitLoop :: "(jsstring \<Rightarrow> jsstring) \<Rightarrow> jsstring \<Rightarrow> jsstring list \<Rightarrow> nat option \<Rightarrow> nat option" where
  "hitLoop toLowerCase lower [] hit = hit"
| "hitLoop toLowerCase lower (tk # tks) hit =
     hitLoop toLowerCase lower tks
       (case indexOf lower (toLowerCase tk) of
          None \<Rightarrow> hit
        | Some idx \<Rightarrow>
            (case hit of
               None \<Rightarrow> Some idx
             | Some h \<Rightarrow> if idx < h then Some idx else hit))"

text \<open>
  \<open>pickGuideSnippet(page, tokens, limit)\<close>; \<open>Math.max(0, hit - 220)\<close> is the truncating
  subtraction of the naturals. The line feed is code unit 10.
\<close>

definition pickGuideSnippet ::
  "(jsstring \<Rightarrow> jsstring) \<Rightarrow> page \<Rightarrow> jsstring list \<Rightarrow> nat \<Rightarrow> jsstring" where
  "pickGuideSnippet toLowerCase page tokens limit =
     (let src = normalizeMultiline (page_text page) in
      if src = [] then []
      else if tokens = [] then slice 0 limit src
      else
        (case hitLoop toLowerCase (toLowerCase src) tokens None of
           None \<Rightarrow> slice 0 limit src
         | Some hit \<Rightarrow>
             (let start = hit - 220;
                  end = min (length src) (start + limit);
                  start' = (case lastIndexOf src 10 start of Some prevNl \<Rightarrow> prevNl + 1 | None \<Rightarrow> start);
                  end' = (case indexOfFrom src [10] end of Some nextNl \<Rightarrow> nextNl | None \<Rightarrow> end)
              in trim (slice start' end' src))))"

section \<open>Relevance scorer and context builder\<close>

text \<open>
  The set \<open>stopWords\<close>, each word as its code units: eight two-letter hiragana words,
  \<open>kudasai\<close>, four two-character kanji words, two katakana words and \<open>kintone\<close>.
\<close>

definition stopWords :: "jsstring list" where
  "stopWords =
     [[12391, 12377], [12414, 12377], [12377, 12427], [12356, 12427], [12354, 12427],
      [12371, 12392], [12383, 12417], [12424, 12358], [12367, 12384, 12373, 12356],
      [30906, 35469], [35373, 23450], [25805, 20316], [30011, 38754],
      [12477, 12488, 12496, 12467], [12509, 12540, 12479, 12523],
      js ''kintone'']"

text \<open>
  The token expression \<open>/[a-z0-9][a-z0-9._-]{1,}|[U+4E00-U+9FAF U+3041-U+3093 U+30A1-U+30F6 U+30FC]{2,}/g\<close>:
  a letter or digit followed by the longest non-empty run of letters, digits, dots,
  underscores and hyphens; or else the longest run of at least two characters of the
  second class.
\<close>

definition isAlnum :: "jschar \<Rightarrow> bool" where
  "isAlnum c = ((97 \<le> c \<and> c \<le> 122) \<or> (48 \<le> c \<and> c \<le> 57))"

definition isTokenChar :: "jschar \<Rightarrow> bool" where
  "isTokenChar c = (isAlnum c \<or> c = 46 \<or> c = 95 \<or> c = 45)"

definition isCJK :: "jschar \<Rightarrow> bool" where
  "isCJK c =
     ((19968 \<le> c \<and> c \<le> 40879) \<or> (12353 \<le> c \<and> c \<le> 12435)
      \<or> (12449 \<le> c \<and> c \<le> 12534) \<or> c = 12540)"

definition re_token :: matcher where
  "re_token s =
     (case s of
        [] \<Rightarrow> None
      | c # r \<Rightarrow>
          if isAlnum c \<and> 1 \<le> run isTokenChar r then Some (1 + run isTokenChar r)
          else if 2 \<le> run isCJK s then Some (run isCJK s)
          else None)"

text \<open>
  \<open>tokenize\<close>. \<open>match\<close> returns \<open>null\<close> exactly when there is no match, and the source
  then returns the empty array, which is what the filter of an empty list gives.
\<close>

definition tokenize :: "(jsstring \<Rightarrow> jsstring) \<Rightarrow> jsstring \<Rightarrow> jsstring list" where
  "tokenize toLowerCase s =
     (let found = matchAll re_token (toLowerCase s)
      in unique (filter (\<lambda>w. w \<notin> set stopWords) found))"

text \<open>The elements of \<open>scored\<close>: \<open>{ page: p, score }\<close>.\<close>

record scoredPage =
  scored_page :: page
  score :: nat

text \<open>The loop \<open>tokens.forEach\<close> that adds up \<open>score\<close>, for the lower-cased string \<open>t\<close>.\<close>

fun scoreLoop :: "(jsstring \<Rightarrow> jsstring) \<Rightarrow> page \<Rightarrow> jsstring \<Rightarrow> jsstring list \<Rightarrow> nat \<Rightarrow> nat" where
  "scoreLoop toLowerCase p t [] sc = sc"
| "scoreLoop toLowerCase p t (tk # tks) sc =
     scoreLoop toLowerCase p t tks
       (if includesStr t tk
        then sc + (if includesStr (toLowerCase (page_title p)) tk then 3 else 1)
        else sc)"

definition scorePage :: "(jsstring \<Rightarrow> jsstring) \<Rightarrow> jsstring list \<Rightarrow> page \<Rightarrow> scoredPage" where
  "scorePage toLowerCase tokens p =
     (let t = toLowerCase (page_title p @ [10] @ page_text p)
      in \<lparr>scored_page = p, score = scoreLoop toLowerCase p t tokens 0\<rparr>)"

text \<open>
  \<open>pages.map(...).sort((a, b) => b.score - a.score)\<close>. \<open>Array.prototype.sort\<close> is stable, so
  with this comparator it orders by descending score and keeps pages of equal score in
  their order; that is the stable insertion sort on the negated score.
\<close>

definition scorePages :: "(jsstring \<Rightarrow> jsstring) \<Rightarrow> jsstring list \<Rightarrow> page list \<Rightarrow> scoredPage list" where
  "scorePages toLowerCase tokens ps =
     sort_key (\<lambda>x. - int (score x)) (map (scorePage toLowerCase tokens) ps)"

definition selectPages :: "scoredPage list \<Rightarrow> scoredPage list" where
  "selectPages scored =
     (if list_ex (\<lambda>x. score x > 0) scored
      then take 4 (filter (\<lambda>x. score x > 0) scored)
      else take 2 scored)"

text \<open>\<open>arr.join(sep)\<close> and the decimal digits of a number.\<close>

fun joinWith :: "jsstring \<Rightarrow> jsstring list \<Rightarrow> jsstring" where
  "joinWith sep [] = []"
| "joinWith sep [x] = x"
| "joinWith sep (x # y # ys) = x @ sep @ joinWith sep (y # ys)"

function decimal :: "nat \<Rightarrow> jsstring" where
  "decimal n = (if n < 10 then [48 + n] else decimal (n div 10) @ [48 + n mod 10])"
  by pat_completeness auto
termination
  by (relation "measure (\<lambda>n. n)") auto

record candidate =
  cand_question :: jsstring
  cand_answer :: jsstring

text \<open>
  The part of \<open>buildGuideContext\<close> that follows \<open>await getGuidePages()\<close>, for the pages
  that call returned. The block of a selected page is
  \<open>[<guide><idx + 1>] <title> LF URL: <url> LF <excerpt>: LF <snippet>\<close>, where
  \<open><guide>\<close> is the three katakana U+30AC U+30A4 U+30C9 and \<open><excerpt>\<close> the two
  kanji U+629C U+7C8B.
\<close>

fun formatBlocks ::
  "(jsstring \<Rightarrow> jsstring) \<Rightarrow> jsstring list \<Rightarrow> nat \<Rightarrow> scoredPage list \<Rightarrow> jsstring list" where
  "formatBlocks toLowerCase tokens idx [] = []"
| "formatBlocks toLowerCase tokens idx (x # xs) =
     (let snippet = pickGuideSnippet toLowerCase (scored_page x) tokens 540
      in (js ''['' @ [12460, 12452, 12489] @ decimal (idx + 1) @ js ''] ''
            @ page_title (scored_page x) @ [10] @ js ''URL: '' @ page_url (scored_page x)
            @ [10] @ [25244, 31883] @ js '':'' @ [10] @ snippet)
         # formatBlocks toLowerCase tokens (idx + 1) xs)"

definition guideContextOf ::
  "(jsstring \<Rightarrow> jsstring) \<Rightarrow> page list \<Rightarrow> jsstring \<Rightarrow> candidate list \<Rightarrow> jsstring" where
  "guideContextOf toLowerCase ps question candidates =
     (if ps = [] then []
      else
        (let seed = joinWith [10]
               (normalizeMultiline question
                # map (\<lambda>c. normalizeMultiline (cand_question c) @ [10]
                              @ normalizeMultiline (cand_answer c)) candidates);
             tokens = take 24 (tokenize toLowerCase seed);
             scored = scorePages toLowerCase tokens ps;
             selected = selectPages scored
         in joinWith [10, 10] (formatBlocks toLowerCase tokens 0 selected)))"

text \<open>\<open>buildGuideContext\<close>: the returned string and the state after the call.\<close>

definition buildGuideContext ::
  "config \<Rightarrow> (jsstring \<Rightarrow> jsstring) \<Rightarrow> ('w \<Rightarrow> (error + page list) \<times> 'w) \<Rightarrow> int
     \<Rightarrow> guideCache \<times> 'w \<Rightarrow> jsstring \<Rightarrow> candidate list \<Rightarrow> jsstring \<times> guideCache \<times> 'w" where
  "buildGuideContext cfg toLowerCase crawl now s question candidates =
     (if \<not> GUIDE_CONTEXT_ENABLED cfg then ([], s)
      else
        (case getGuidePages cfg crawl now s of
           (ps, s') \<Rightarrow> (guideContextOf toLowerCase ps question candidates, s')))"


section \<open>Example inputs\<close>

text \<open>
  \<open>toLowerCase\<close> restricted to ASCII: it agrees with the platform's function on every
  string of ASCII characters. It stands for the platform in the examples.
\<close>

definition toLowerCaseASCII :: "jsstring \<Rightarrow> jsstring" where
  "toLowerCaseASCII s = map (\<lambda>c. if 65 \<le> c \<and> c \<le> 90 then c + 32 else c) s"

definition cfg0 :: config where
  "cfg0 = \<lparr>GUIDE_ROOT_URL = js ''https://example.com/portal/index.html'',
            GUIDE_CONTEXT_ENABLED = True, GUIDE_MAX_PAGES = 24,
            GUIDE_CACHE_TTL_MS = 21600000\<rparr>"

definition pageA :: page where
  "pageA = \<lparr>page_url = js ''https://example.com/portal/index.html'',
             page_title = js ''Portal'', page_text = js ''How to open the portal''\<rparr>"

definition pageB :: page where
  "pageB = \<lparr>page_url = js ''https://example.com/portal/b.html'',
             page_title = js ''Views'', page_text = js ''How to add a view''\<rparr>"

text \<open>A cache filled at time 0 by a crawl that found \<open>pageA\<close>.\<close>

definition cacheA :: guideCache where
  "cacheA = \<lparr>pages = [pageA], fetchedAt = 0, expiresAt = 21600000, lastError = []\<rparr>"

text \<open>
  The cache a first call leaves at time 0 when its crawl throws: no pages, and an expiry
  five minutes ahead.
\<close>

definition cacheFailed :: guideCache where
  "cacheFailed = \<lparr>pages = [], fetchedAt = 0, expiresAt = 300000, lastError = js ''Invalid URL''\<rparr>"

text \<open>
  Three crawls, acting on a world that counts the crawls run so far: one that always
  throws, one that always finds \<open>pageB\<close>, and one that finds \<open>pageA\<close> the first time and
  no page afterwards (every fetch fails and is skipped, so the crawl returns \<open>[]\<close>).
\<close>

definition crawlThrows :: "nat \<Rightarrow> (error + page list) \<times> nat" where
  "crawlThrows w = (Inl (TypeError (js ''Invalid URL'')), Suc w)"

definition crawlFindsB :: "nat \<Rightarrow> (error + page list) \<times> nat" where
  "crawlFindsB w = (Inr [pageB], Suc w)"

definition crawlThenNothing :: "nat \<Rightarrow> (error + page list) \<times> nat" where
  "crawlThenNothing w = (if w = 0 then Inr [pageA] else Inr [], Suc w)"

definition pageBlankFirst :: page where
  "pageBlankFirst = \<lparr>page_url = [], page_title = [], page_text = js '' a''\<rparr>"

text \<open>600 times \<open>a\<close>, a line feed, \<open>b\<close>; and 599 times \<open>a\<close>, then \<open>b\<close>, on one line.\<close>

definition pageLongLine :: page where
  "pageLongLine = \<lparr>page_url = [], page_title = [], page_text = replicate 600 97 @ [10, 98]\<rparr>"

definition pageOneLine :: page where
  "pageOneLine = \<lparr>page_url = [], page_title = [], page_text = replicate 599 97 @ [98]\<rparr>"


text \<open>
  A parser for plain \<open>https://host/path\<close> strings; it agrees with \<open>new URL\<close> on the
  URLs of the examples (no port, query, fragment or dot segment).
\<close>

definition newURL_plain :: "jsstring \<Rightarrow> url option" where
  "newURL_plain s =
     (if startsWith s (js ''https://'') \<and> drop 8 s \<noteq> []
      then Some \<lparr>href = s, host = takeWhile (\<lambda>c. c \<noteq> 47) (drop 8 s),
                  pathname = dropWhile (\<lambda>c. c \<noteq> 47) (drop 8 s)\<rparr>
      else None)"

text \<open>
  A resolver for absolute links of the plain form (the only links of the examples): such
  a link resolves to itself, whatever the page it stands on.
\<close>

definition resolveURL_plain :: "jsstring \<Rightarrow> jsstring \<Rightarrow> jsstring option" where
  "resolveURL_plain raw currentUrl = (if newURL_plain raw = None then None else Some raw)"

text \<open>
  A site of three pages: the root links to \<open>a.html\<close>, to \<open>b.html\<close> and to another host,
  \<open>a.html\<close> links to \<open>b.html\<close>, and \<open>b.html\<close> cannot be fetched.
\<close>

definition urlA :: jsstring where "urlA = js ''https://example.com/portal/a.html''"
definition urlB :: jsstring where "urlB = js ''https://example.com/portal/b.html''"
definition urlRoot :: jsstring where "urlRoot = js ''https://example.com/portal/index.html''"

definition htmlRoot :: jsstring where
  "htmlRoot = js ''<title>Portal</title><a href=\"https://example.com/portal/a.html\">A</a> <a href=https://example.com/portal/b.html>B</a> <a href='https://other.example/x.html'>X</a>''"

definition htmlA :: jsstring where
  "htmlA = js ''<title>A</title><a href=\"https://example.com/portal/b.html\">B</a>''"

definition site0 :: "jsstring \<Rightarrow> error + jsstring" where
  "site0 u = (if u = urlRoot then Inr htmlRoot else if u = urlA then Inr htmlA
              else Inl (Error (js ''fetch failed: 404'')))"

section \<open>Basic lemmas\<close>

lemma run_le: "run P s \<le> length s"
  unfolding run_def by (rule length_takeWhile_le)

lemma run_all: "(run P s = length s) = (\<forall>c \<in> set s. P c)"
  unfolding run_def by (induction s) auto

lemma run_less: "(run (\<lambda>c. c \<noteq> x) s < length s) = (x \<in> set s)"
proof -
  have "(run (\<lambda>c. c \<noteq> x) s < length s) = (run (\<lambda>c. c \<noteq> x) s \<noteq> length s)"
    using run_le [of "\<lambda>c. c \<noteq> x" s] by arith
  then show ?thesis by (auto simp: run_all)
qed

lemma take_run: "take (run P s) s = takeWhile P s"
  unfolding run_def by (rule takeWhile_eq_take [symmetric])

lemma run_append: "\<forall>c \<in> set xs. P c \<Longrightarrow> \<not> P y \<Longrightarrow> run P (xs @ y # ys) = length xs"
  unfolding run_def by (simp add: takeWhile_append2)

lemma run_Cons_not: "\<not> P y \<Longrightarrow> run P (y # ys) = 0"
  unfolding run_def by simp

lemma uniqueAcc_set: "set (uniqueAcc seen xs) = set seen \<union> set xs"
  by (induction xs arbitrary: seen) auto

lemma uniqueAcc_distinct: "distinct seen \<Longrightarrow> distinct (uniqueAcc seen xs)"
  by (induction xs arbitrary: seen) auto

lemma unique_set: "set (unique xs) = set xs"
  by (simp add: unique_def uniqueAcc_set)

lemma unique_distinct: "distinct (unique xs)"
  by (simp add: unique_def uniqueAcc_distinct)

section \<open>Properties of the HTML stripper\<close>

lemmas eval_strip =
  stripHtmlToText_def stripTags_def decodeHtmlEntities_def normalizeMultiline_def
  re_block_def re_br_def re_block_close_def re_tag_def re_blank2_def re_nl_blanks_def
  re_dec_entity_def re_hex_entity_def re_named_entity_def htmlEntityMap_def
  re_crlf_def re_blanks_nl_def re_nl3_def run_def isBlank_def startsWith_def trim_def
  isWhiteSpace_def startsWithCI_def ciEq_def isWordChar_def isLetter_def isDigit_def
  isHexDigit_def isEntityNameChar_def js_def

lemma re_tag_None_iff: "(re_tag (c # cs) = None) = (\<not> (c = 60 \<and> 62 \<in> set cs))"
  by (simp add: re_tag_def run_less)

lemma re_tag_Cons: "(re_tag (c # cs) \<noteq> None) = (c = 60 \<and> 62 \<in> set cs)"
  by (simp add: re_tag_def run_less)

lemma re_tag_Cons_ex: "(\<exists>n. re_tag (c # cs) = Some n) = (c = 60 \<and> 62 \<in> set cs)"
  using re_tag_Cons [of c cs] by simp

lemma re_tag_Nil: "re_tag [] = None"
  by (simp add: re_tag_def)

lemma re_tag_Some: "re_tag s = Some n \<Longrightarrow> \<exists>k. n = Suc k"
  by (cases s) (auto simp: re_tag_def split: if_splits)

lemma replaceAll_set: "set (replaceAll m rep s) \<subseteq> set s \<union> set rep"
proof (induction m rep s rule: replaceAll.induct)
  case (1 m rep)
  then show ?case by (cases "m []") auto
next
  case (2 m rep c cs)
  show ?case
  proof (cases "m (c # cs)")
    case None
    with 2 show ?thesis by auto
  next
    case (Some n)
    show ?thesis
    proof (cases n)
      case 0
      with Some 2 show ?thesis by auto
    next
      case (Suc k)
      have "set (drop k cs) \<subseteq> set cs" by (rule set_drop_subset)
      with "2.IH"(3) [OF Some Suc] Some Suc show ?thesis by auto
    qed
  qed
qed

lemma test_filter_angle:
  assumes "P 60" and "P 62"
  shows "test re_tag (filter P s) = test re_tag s"
proof (induction s)
  case Nil
  show ?case by simp
next
  case (Cons c cs)
  have m: "(62 \<in> set (filter P cs)) = (62 \<in> set cs)" using assms by auto
  show ?case
  proof (cases "P c")
    case True
    with m Cons.IH show ?thesis by (simp add: re_tag_Cons_ex)
  next
    case False
    with assms have "c \<noteq> 60" by auto
    then have "re_tag (c # cs) = None" by (simp add: re_tag_None_iff)
    with False Cons.IH show ?thesis by simp
  qed
qed

lemma test_filter_tag:
  "test re_tag (filter (\<lambda>c. c = 60 \<or> c = 62 \<or> c = 38) s) = test re_tag s"
  by (rule test_filter_angle) simp_all

lemma no_tag_after_strip: "\<not> test re_tag (replaceAll re_tag [32] s)"
proof (induction "re_tag" "[32::nat]" s rule: replaceAll.induct)
  case 1
  show ?case by (simp add: re_tag_Nil)
next
  case (2 c cs)
  show ?case
  proof (cases "re_tag (c # cs)")
    case None
    then have nc: "\<not> (c = 60 \<and> 62 \<in> set cs)" unfolding re_tag_None_iff .
    have "set (replaceAll re_tag [32] cs) \<subseteq> set cs \<union> set [32]" by (rule replaceAll_set)
    with nc have "\<not> (c = 60 \<and> 62 \<in> set (replaceAll re_tag [32] cs))" by auto
    then have "re_tag (c # replaceAll re_tag [32] cs) = None"
      unfolding re_tag_None_iff .
    with None "2.hyps"(1) [OF None] show ?thesis by simp
  next
    case (Some n)
    from re_tag_Some [OF Some] obtain k where k: "n = Suc k" by blast
    have "re_tag (32 # replaceAll re_tag [32] (drop k cs)) = None"
      by (simp add: re_tag_None_iff)
    with Some k "2.hyps"(3) [OF Some k] show ?thesis by simp
  qed
qed

lemma test_no_match:
  assumes "\<And>t. m t \<noteq> None \<Longrightarrow> t \<noteq> [] \<and> hd t = x"
  shows "x \<notin> set s \<Longrightarrow> \<not> test m s"
proof (induction s)
  case Nil
  have "m [] = None"
  proof (rule ccontr)
    assume "m [] \<noteq> None"
    from assms [OF this] show False by simp
  qed
  then show ?case by simp
next
  case (Cons c cs)
  have "m (c # cs) = None"
  proof (rule ccontr)
    assume "m (c # cs) \<noteq> None"
    from assms [OF this] Cons.prems show False by simp
  qed
  with Cons show ?case by simp
qed

lemma startsWith_hd: "startsWith t (c # p) \<Longrightarrow> t \<noteq> [] \<and> hd t = c"
  by (cases t) (auto simp: startsWith_def)

lemma re_dec_entity_amp: "re_dec_entity t \<noteq> None \<Longrightarrow> t \<noteq> [] \<and> hd t = 38"
  by (rule startsWith_hd [of t 38 "[35]"]) (simp add: re_dec_entity_def js_def split: if_splits)

lemma re_hex_entity_amp: "re_hex_entity t \<noteq> None \<Longrightarrow> t \<noteq> [] \<and> hd t = 38"
  by (rule startsWith_hd [of t 38 "[35, 120]"]) (simp add: re_hex_entity_def js_def split: if_splits)

lemma re_named_entity_amp: "re_named_entity t \<noteq> None \<Longrightarrow> t \<noteq> [] \<and> hd t = 38"
  by (rule startsWith_hd [of t 38 "[]"]) (simp add: re_named_entity_def js_def split: if_splits)

lemma replaceAll_filter:
  assumes m: "\<And>t n. m t = Some n \<Longrightarrow> filter P (take n t) = []"
    and rep: "filter P rep = []"
  shows "filter P (replaceAll m rep s) = filter P s"
  using assms
proof (induction m rep s rule: replaceAll.induct)
  case (1 m rep)
  then show ?case by (cases "m []") auto
next
  case (2 m rep c cs)
  show ?case
  proof (cases "m (c # cs)")
    case None
    with 2 show ?thesis by simp
  next
    case (Some n)
    show ?thesis
    proof (cases n)
      case 0
      with Some 2 show ?thesis by simp
    next
      case (Suc k)
      from "2.prems"(1) [of "c # cs" n] Some Suc
      have "filter P (take (Suc k) (c # cs)) = []" by simp
      moreover have "filter P (c # cs) = filter P (take (Suc k) (c # cs)) @ filter P (drop k cs)"
        by (metis append_take_drop_id drop_Suc_Cons filter_append)
      ultimately have "filter P (c # cs) = filter P (drop k cs)" by simp
      with "2.IH"(3) [OF Some Suc "2.prems"] Some Suc "2.prems"(2) show ?thesis by simp
    qed
  qed
qed

lemma filter_ws:
  assumes "\<forall>c \<in> set s. isWhiteSpace c"
  shows "filter (\<lambda>c. c = 60 \<or> c = 62 \<or> c = 38) s = []"
  using assms by (auto simp: filter_empty_conv isWhiteSpace_def)

lemma takeWhile_blank_ws: "\<forall>c \<in> set (takeWhile isBlank s). isWhiteSpace c"
  by (auto dest!: set_takeWhileD simp: isBlank_def isWhiteSpace_def)

lemma re_blank2_ws: "re_blank2 t = Some n \<Longrightarrow> \<forall>c \<in> set (take n t). isWhiteSpace c"
  using takeWhile_blank_ws [of t]
  by (auto simp: re_blank2_def Let_def take_run split: if_splits)

lemma re_nl_blanks_ws: "re_nl_blanks t = Some n \<Longrightarrow> \<forall>c \<in> set (take n t). isWhiteSpace c"
proof (cases t)
  case Nil
  assume "re_nl_blanks t = Some n"
  with Nil show ?thesis by (simp add: re_nl_blanks_def)
next
  case (Cons c r)
  assume "re_nl_blanks t = Some n"
  with Cons have "c = 10" and "n = Suc (run isBlank r)"
    by (auto simp: re_nl_blanks_def split: if_splits)
  with Cons takeWhile_blank_ws [of r] show ?thesis
    by (simp add: take_run isWhiteSpace_def)
qed

lemma re_crlf_ws: "re_crlf t = Some n \<Longrightarrow> \<forall>c \<in> set (take n t). isWhiteSpace c"
proof (cases t)
  case Nil
  assume "re_crlf t = Some n"
  with Nil show ?thesis by (simp add: re_crlf_def)
next
  case (Cons c r)
  assume a: "re_crlf t = Some n"
  show ?thesis
  proof (cases r)
    case Nil
    with a Cons show ?thesis
      by (auto simp: re_crlf_def startsWith_def isWhiteSpace_def split: if_splits)
  next
    case (Cons d r')
    with a \<open>t = c # r\<close> show ?thesis
      by (auto simp: re_crlf_def startsWith_def isWhiteSpace_def split: if_splits)
  qed
qed

lemma re_blanks_nl_ws: "re_blanks_nl t = Some n \<Longrightarrow> \<forall>c \<in> set (take n t). isWhiteSpace c"
proof -
  assume a: "re_blanks_nl t = Some n"
  let ?k = "run isBlank t"
  from a have n: "n = Suc ?k" and sw: "startsWith (drop ?k t) [10]"
    by (auto simp: re_blanks_nl_def Let_def split: if_splits)
  from sw have ne: "drop ?k t \<noteq> []" and h: "hd (drop ?k t) = 10"
    by (cases "drop ?k t"; simp add: startsWith_def)+
  from ne have lt: "?k < length t" by simp
  with h have "t ! ?k = 10" by (simp add: hd_drop_conv_nth)
  moreover from lt have "take (Suc ?k) t = take ?k t @ [t ! ?k]"
    by (rule take_Suc_conv_app_nth)
  ultimately show ?thesis
    using n takeWhile_blank_ws [of t] by (simp add: take_run isWhiteSpace_def)
qed

lemma re_nl3_ws: "re_nl3 t = Some n \<Longrightarrow> \<forall>c \<in> set (take n t). isWhiteSpace c"
proof -
  assume "re_nl3 t = Some n"
  then have "take n t = takeWhile (\<lambda>c. c = 10) t"
    by (auto simp: re_nl3_def Let_def take_run split: if_splits)
  then show ?thesis by (auto dest!: set_takeWhileD simp: isWhiteSpace_def)
qed

lemma dropWhile_filter:
  assumes "\<And>c. Q c \<Longrightarrow> \<not> P c"
  shows "filter P (dropWhile Q s) = filter P s"
  using assms by (induction s) auto

lemma trim_filter:
  "filter (\<lambda>c. c = 60 \<or> c = 62 \<or> c = 38) (trim s) = filter (\<lambda>c. c = 60 \<or> c = 62 \<or> c = 38) s"
proof -
  let ?P = "\<lambda>c. c = 60 \<or> c = 62 \<or> c = (38::nat)"
  have d: "\<And>t. filter ?P (dropWhile isWhiteSpace t) = filter ?P t"
    by (rule dropWhile_filter) (auto simp: isWhiteSpace_def)
  have "filter ?P (trim s) = rev (filter ?P (dropWhile isWhiteSpace (rev (dropWhile isWhiteSpace s))))"
    by (simp add: trim_def rev_filter)
  also have "\<dots> = rev (filter ?P (rev (dropWhile isWhiteSpace s)))" by (simp only: d)
  also have "\<dots> = filter ?P (dropWhile isWhiteSpace s)" by (simp add: rev_filter)
  also have "\<dots> = filter ?P s" by (rule d)
  finally show ?thesis .
qed

lemma normalize_filter:
  "filter (\<lambda>c. c = 60 \<or> c = 62 \<or> c = 38)
     (normalizeMultiline (replaceAll re_nl_blanks [10] (replaceAll re_blank2 [32] d)))
   = filter (\<lambda>c. c = 60 \<or> c = 62 \<or> c = 38) d"
  by (simp add: normalizeMultiline_def trim_filter
      replaceAll_filter [of re_nl3, OF filter_ws [OF re_nl3_ws]]
      replaceAll_filter [of re_blanks_nl, OF filter_ws [OF re_blanks_nl_ws]]
      replaceAll_filter [of re_crlf, OF filter_ws [OF re_crlf_ws]]
      replaceAll_filter [of re_nl_blanks, OF filter_ws [OF re_nl_blanks_ws]]
      replaceAll_filter [of re_blank2, OF filter_ws [OF re_blank2_ws]])

lemma stripTags_no_tag: "\<not> test re_tag (stripTags html)"
  by (simp add: stripTags_def js_def no_tag_after_strip)

text \<open>
  A replacement with a function, over a text that is a sequence of parts: a part without
  an ampersand is copied, a part that is a match is replaced, and a part that starts with
  an ampersand and is no match is copied too.
\<close>

lemma replaceAllWith_copy:
  assumes amp: "\<And>t. m t \<noteq> None \<Longrightarrow> t \<noteq> [] \<and> hd t = 38"
  shows "38 \<notin> set s \<Longrightarrow> replaceAllWith m f rest = Inr t \<Longrightarrow>
         replaceAllWith m f (s @ rest) = Inr (s @ t)"
proof (induction s)
  case Nil
  then show ?case by simp
next
  case (Cons c cs)
  have "m (c # cs @ rest) = None"
  proof (rule ccontr)
    assume "m (c # cs @ rest) \<noteq> None"
    from amp [OF this] Cons.prems show False by simp
  qed
  with Cons show ?case by simp
qed

lemma replaceAllWith_match:
  assumes "r \<noteq> []" and "m (r @ rest) = Some (length r)" and "f r = Inr v"
    and "replaceAllWith m f rest = Inr t"
  shows "replaceAllWith m f (r @ rest) = Inr (v @ t)"
proof (cases r)
  case Nil
  with assms show ?thesis by simp
next
  case (Cons c cs)
  with assms show ?thesis by simp
qed

lemma replaceAllWith_skip:
  assumes amp: "\<And>t. m t \<noteq> None \<Longrightarrow> t \<noteq> [] \<and> hd t = 38"
    and "r \<noteq> []" and "38 \<notin> set (tl r)" and "m (r @ rest) = None"
    and "replaceAllWith m f rest = Inr t"
  shows "replaceAllWith m f (r @ rest) = Inr (r @ t)"
proof (cases r)
  case Nil
  with assms show ?thesis by simp
next
  case (Cons c cs)
  with assms have "38 \<notin> set cs" by simp
  from replaceAllWith_copy [of m cs f rest t, OF amp this assms(5)]
  have "replaceAllWith m f (cs @ rest) = Inr (cs @ t)" .
  with Cons assms(4) show ?thesis by simp
qed

lemma replaceAllWith_concat:
  assumes amp: "\<And>t. m t \<noteq> None \<Longrightarrow> t \<noteq> [] \<and> hd t = 38"
    and each: "\<And>x rest. x \<in> set xs \<Longrightarrow>
        (38 \<notin> set (src x) \<and> dst x = src x)
      \<or> (src x \<noteq> [] \<and> m (src x @ rest) = Some (length (src x)) \<and> f (src x) = Inr (dst x))
      \<or> (src x \<noteq> [] \<and> 38 \<notin> set (tl (src x)) \<and> m (src x @ rest) = None \<and> dst x = src x)"
  shows "replaceAllWith m f (concat (map src xs)) = Inr (concat (map dst xs))"
  using each
proof (induction xs)
  case Nil
  have "m [] = None"
  proof (rule ccontr)
    assume "m [] \<noteq> None"
    from amp [OF this] show False by simp
  qed
  then show ?case by simp
next
  case (Cons x xs)
  let ?rest = "concat (map src xs)"
  let ?t = "concat (map dst xs)"
  have ih: "replaceAllWith m f ?rest = Inr ?t"
    by (rule Cons.IH) (rule Cons.prems, simp)
  from Cons.prems [of x ?rest]
  consider (copy) "38 \<notin> set (src x)" "dst x = src x"
    | (match) "src x \<noteq> []" "m (src x @ ?rest) = Some (length (src x))" "f (src x) = Inr (dst x)"
    | (skip) "src x \<noteq> []" "38 \<notin> set (tl (src x))" "m (src x @ ?rest) = None" "dst x = src x"
    by auto
  then have "replaceAllWith m f (src x @ ?rest) = Inr (dst x @ ?t)"
  proof cases
    case copy
    from replaceAllWith_copy [of m "src x" f ?rest ?t, OF amp copy(1) ih] copy(2)
    show ?thesis by simp
  next
    case match
    from replaceAllWith_match [OF match(1,2,3) ih] show ?thesis .
  next
    case skip
    from replaceAllWith_skip [of m "src x" ?rest f ?t, OF amp skip(1,2,3) ih] skip(4)
    show ?thesis by simp
  qed
  then show ?case by simp
qed

text \<open>The three expressions of \<open>decodeHtmlEntities\<close> on the written references.\<close>

lemma re_dec_entity_match:
  assumes "ds \<noteq> []" and "list_all isDigit ds"
  shows "re_dec_entity (38 # 35 # ds @ 59 # rest) = Some (length ds + 3)"
proof -
  have r: "run isDigit (ds @ 59 # rest) = length ds"
    using assms(2) by (intro run_append) (simp_all add: list_all_iff isDigit_def)
  have l: "1 \<le> length ds" using assms(1) by (cases ds) simp_all
  show ?thesis
    using r l by (simp add: re_dec_entity_def startsWith_def js_def)
qed

lemma re_hex_entity_match:
  assumes "hs \<noteq> []" and "list_all isHexDigit hs"
  shows "re_hex_entity (38 # 35 # 120 # hs @ 59 # rest) = Some (length hs + 4)"
proof -
  have r: "run isHexDigit (hs @ 59 # rest) = length hs"
    using assms(2) by (intro run_append) (simp_all add: list_all_iff isHexDigit_def isDigit_def)
  have l: "1 \<le> length hs" using assms(1) by (cases hs) simp_all
  show ?thesis
    using r l by (simp add: re_hex_entity_def startsWith_def js_def Let_def numeral_3_eq_3)
qed

lemma re_named_entity_match:
  assumes "n \<noteq> []" and "list_all isEntityNameChar n"
  shows "re_named_entity (38 # n @ 59 # rest) = Some (length n + 2)"
proof -
  have r: "run isEntityNameChar (n @ 59 # rest) = length n"
    using assms(2)
    by (intro run_append) (simp_all add: list_all_iff isEntityNameChar_def isLetter_def isDigit_def)
  have l: "1 \<le> length n" using assms(1) by (cases n) simp_all
  show ?thesis
    using r l by (simp add: re_named_entity_def startsWith_def js_def)
qed

lemma re_dec_entity_hex: "re_dec_entity (38 # 35 # 120 # t) = None"
  by (simp add: re_dec_entity_def startsWith_def js_def run_Cons_not isDigit_def)

lemma re_dec_entity_letter: "isLetter c \<Longrightarrow> re_dec_entity (38 # c # t) = None"
  by (auto simp add: re_dec_entity_def startsWith_def js_def isLetter_def)

lemma re_hex_entity_letter: "isLetter c \<Longrightarrow> re_hex_entity (38 # c # t) = None"
  by (auto simp add: re_hex_entity_def startsWith_def js_def isLetter_def)

lemma isFiniteNumber_codePoint: "v \<le> 1114111 \<Longrightarrow> isFiniteNumber v"
  by (simp add: isFiniteNumber_def)

lemma fromCodePoint_codeUnits: "v \<le> 1114111 \<Longrightarrow> fromCodePoint v = Inr (codeUnits v)"
  by (simp add: fromCodePoint_def codeUnits_def)

lemma codeUnits_no_amp: "v \<noteq> 38 \<Longrightarrow> 38 \<notin> set (codeUnits v)"
  by (simp add: codeUnits_def)

lemma spec_namedEntities_known:
  assumes "map_of spec_namedEntities n = Some v"
  shows "n \<noteq> [] \<and> list_all isLetter n \<and> htmlEntityMap n = Some v"
  using assms
  by (auto simp add: spec_namedEntities_def htmlEntityMap_def js_def isLetter_def
      split: if_splits)

text \<open>
  Each of the three replacements decodes the references of its kind and leaves the other
  pieces as they are; together they decode a well-formed text piece by piece.
\<close>

lemma isLetter_hd:
  "n \<noteq> [] \<Longrightarrow> list_all isLetter n \<Longrightarrow> \<exists>c t. n = c # t \<and> isLetter c"
  by (cases n) simp_all

lemma letters_no_amp: "list_all isLetter n \<Longrightarrow> 38 \<notin> set n"
  by (auto simp add: list_all_iff isLetter_def)

lemma digits_no_amp: "list_all isDigit n \<Longrightarrow> 38 \<notin> set n"
  by (auto simp add: list_all_iff isDigit_def)

lemma hexDigits_no_amp: "list_all isHexDigit n \<Longrightarrow> 38 \<notin> set n"
  by (auto simp add: list_all_iff isHexDigit_def isDigit_def)

lemma letters_name: "list_all isLetter n \<Longrightarrow> list_all isEntityNameChar n"
  by (auto simp add: list_all_iff isEntityNameChar_def)

lemma decimal_pass:
  assumes wf: "\<forall>p \<in> set ps. wellFormed p"
  shows "replaceAllWith re_dec_entity
           (\<lambda>mt. let code = digitsValue 10 (butlast (drop 2 mt))
                 in if isFiniteNumber code then fromCodePoint code else Inr mt)
           (concat (map (decodedAfter 0) ps))
         = Inr (concat (map (decodedAfter 1) ps))"
proof (rule replaceAllWith_concat [OF re_dec_entity_amp])
  fix p rest
  assume "p \<in> set ps"
  with wf have w: "wellFormed p" by blast
  let ?f = "\<lambda>mt. let code = digitsValue 10 (butlast (drop 2 mt))
                 in if isFiniteNumber code then fromCodePoint code else Inr mt"
  let ?G = "(38 \<notin> set (decodedAfter 0 p) \<and> decodedAfter 1 p = decodedAfter 0 p)
      \<or> (decodedAfter 0 p \<noteq> []
          \<and> re_dec_entity (decodedAfter 0 p @ rest) = Some (length (decodedAfter 0 p))
          \<and> ?f (decodedAfter 0 p) = Inr (decodedAfter 1 p))
      \<or> (decodedAfter 0 p \<noteq> [] \<and> 38 \<notin> set (tl (decodedAfter 0 p))
          \<and> re_dec_entity (decodedAfter 0 p @ rest) = None
          \<and> decodedAfter 1 p = decodedAfter 0 p)"
  show ?G
  proof (cases p)
    case (Plain s)
    with w show ?thesis by simp
  next
    case (Decimal ds)
    with w have d: "ds \<noteq> []" "list_all isDigit ds" "digitsValue 10 ds \<le> 1114111" by simp_all
    have "re_dec_entity (decodedAfter 0 p @ rest) = Some (length (decodedAfter 0 p))"
      using re_dec_entity_match [OF d(1,2), of rest] Decimal by (simp add: js_def)
    moreover have "?f (decodedAfter 0 p) = Inr (decodedAfter 1 p)"
      using d(3) Decimal
      by (simp add: js_def isFiniteNumber_codePoint fromCodePoint_codeUnits)
    moreover have "decodedAfter 0 p \<noteq> []" using Decimal by (simp add: js_def)
    ultimately show ?thesis by blast
  next
    case (Hexadecimal hs)
    with w have "38 \<notin> set hs" by (simp add: hexDigits_no_amp)
    with Hexadecimal show ?thesis by (simp add: js_def re_dec_entity_hex)
  next
    case (Named n)
    with w obtain v where "map_of spec_namedEntities n = Some v" by auto
    from spec_namedEntities_known [OF this] have n: "n \<noteq> []" "list_all isLetter n" by simp_all
    from isLetter_hd [OF n] obtain c t where c: "n = c # t" "isLetter c" by blast
    from n(2) have "38 \<notin> set n" by (rule letters_no_amp)
    with Named c show ?thesis by (simp add: js_def re_dec_entity_letter)
  qed
qed

lemma hexadecimal_pass:
  assumes wf: "\<forall>p \<in> set ps. wellFormed p"
  shows "replaceAllWith re_hex_entity
           (\<lambda>mt. let code = digitsValue 16 (butlast (drop 3 mt))
                 in if isFiniteNumber code then fromCodePoint code else Inr mt)
           (concat (map (decodedAfter 1) ps))
         = Inr (concat (map (decodedAfter 2) ps))"
proof (rule replaceAllWith_concat [OF re_hex_entity_amp])
  fix p rest
  assume "p \<in> set ps"
  with wf have w: "wellFormed p" by blast
  let ?f = "\<lambda>mt. let code = digitsValue 16 (butlast (drop 3 mt))
                 in if isFiniteNumber code then fromCodePoint code else Inr mt"
  let ?G = "(38 \<notin> set (decodedAfter 1 p) \<and> decodedAfter 2 p = decodedAfter 1 p)
      \<or> (decodedAfter 1 p \<noteq> []
          \<and> re_hex_entity (decodedAfter 1 p @ rest) = Some (length (decodedAfter 1 p))
          \<and> ?f (decodedAfter 1 p) = Inr (decodedAfter 2 p))
      \<or> (decodedAfter 1 p \<noteq> [] \<and> 38 \<notin> set (tl (decodedAfter 1 p))
          \<and> re_hex_entity (decodedAfter 1 p @ rest) = None
          \<and> decodedAfter 2 p = decodedAfter 1 p)"
  show ?G
  proof (cases p)
    case (Plain s)
    with w show ?thesis by simp
  next
    case (Decimal ds)
    with w have "38 \<notin> set (codeUnits (digitsValue 10 ds))" by (simp add: codeUnits_no_amp)
    with Decimal show ?thesis by simp
  next
    case (Hexadecimal hs)
    with w have d: "hs \<noteq> []" "list_all isHexDigit hs" "digitsValue 16 hs \<le> 1114111" by simp_all
    have "re_hex_entity (decodedAfter 1 p @ rest) = Some (length (decodedAfter 1 p))"
      using re_hex_entity_match [OF d(1,2), of rest] Hexadecimal by (simp add: js_def)
    moreover have "?f (decodedAfter 1 p) = Inr (decodedAfter 2 p)"
      using d(3) Hexadecimal
      by (simp add: js_def isFiniteNumber_codePoint fromCodePoint_codeUnits)
    moreover have "decodedAfter 1 p \<noteq> []" using Hexadecimal by (simp add: js_def)
    ultimately show ?thesis by blast
  next
    case (Named n)
    with w obtain v where "map_of spec_namedEntities n = Some v" by auto
    from spec_namedEntities_known [OF this] have n: "n \<noteq> []" "list_all isLetter n" by simp_all
    from isLetter_hd [OF n] obtain c t where c: "n = c # t" "isLetter c" by blast
    from n(2) have "38 \<notin> set n" by (rule letters_no_amp)
    with Named c show ?thesis by (simp add: js_def re_hex_entity_letter)
  qed
qed

lemma named_pass:
  assumes wf: "\<forall>p \<in> set ps. wellFormed p"
  shows "replaceAllWith re_named_entity
           (\<lambda>mt. case htmlEntityMap (butlast (drop 1 mt)) of Some v \<Rightarrow> Inr v | None \<Rightarrow> Inr mt)
           (concat (map (decodedAfter 2) ps))
         = Inr (concat (map (decodedAfter 3) ps))"
proof (rule replaceAllWith_concat [OF re_named_entity_amp])
  fix p rest
  assume "p \<in> set ps"
  with wf have w: "wellFormed p" by blast
  let ?f = "\<lambda>mt. case htmlEntityMap (butlast (drop 1 mt)) of
                  Some v \<Rightarrow> (Inr v :: error + jsstring) | None \<Rightarrow> Inr mt"
  let ?G = "(38 \<notin> set (decodedAfter 2 p) \<and> decodedAfter 3 p = decodedAfter 2 p)
      \<or> (decodedAfter 2 p \<noteq> []
          \<and> re_named_entity (decodedAfter 2 p @ rest) = Some (length (decodedAfter 2 p))
          \<and> ?f (decodedAfter 2 p) = Inr (decodedAfter 3 p))
      \<or> (decodedAfter 2 p \<noteq> [] \<and> 38 \<notin> set (tl (decodedAfter 2 p))
          \<and> re_named_entity (decodedAfter 2 p @ rest) = None
          \<and> decodedAfter 3 p = decodedAfter 2 p)"
  show ?G
  proof (cases p)
    case (Plain s)
    with w show ?thesis by simp
  next
    case (Decimal ds)
    with w have "38 \<notin> set (codeUnits (digitsValue 10 ds))" by (simp add: codeUnits_no_amp)
    with Decimal show ?thesis by simp
  next
    case (Hexadecimal hs)
    with w have "38 \<notin> set (codeUnits (digitsValue 16 hs))" by (simp add: codeUnits_no_amp)
    with Hexadecimal show ?thesis by simp
  next
    case (Named n)
    with w obtain v where v: "map_of spec_namedEntities n = Some v" by auto
    from spec_namedEntities_known [OF v] have n: "n \<noteq> []" "list_all isLetter n" "htmlEntityMap n = Some v"
      by simp_all
    have "re_named_entity (decodedAfter 2 p @ rest) = Some (length (decodedAfter 2 p))"
      using re_named_entity_match [OF n(1) letters_name [OF n(2)], of rest] Named
      by (simp add: js_def)
    moreover have "?f (decodedAfter 2 p) = Inr (decodedAfter 3 p)"
      using n(3) v Named by (simp add: js_def)
    moreover have "decodedAfter 2 p \<noteq> []" using Named by (simp add: js_def)
    ultimately show ?thesis by blast
  qed
qed

lemma decodedAfter_0: "decodedAfter 0 p = written p"
  by (cases p) simp_all

lemma decodedAfter_3: "decodedAfter 3 p = decoded p"
  by (cases p) simp_all

lemma decodeHtmlEntities_pieces:
  assumes "\<forall>p \<in> set ps. wellFormed p"
  shows "decodeHtmlEntities (concat (map written ps)) = Inr (concat (map decoded ps))"
proof -
  have a: "map written ps = map (decodedAfter 0) ps" by (simp add: decodedAfter_0)
  have b: "map decoded ps = map (decodedAfter 3) ps" by (simp add: decodedAfter_3)
  show ?thesis
    unfolding decodeHtmlEntities_def a b
    by (simp only: decimal_pass [OF assms] hexadecimal_pass [OF assms] named_pass [OF assms]
        sum.case)
qed

text \<open>
  The white-space normalization that follows the decoding makes no entity reference: a
  reference in its result stood in its argument.
\<close>

lemma re_named_entity_iff:
  "(re_named_entity t \<noteq> None)
   = (\<exists>n r. t = 38 # n @ 59 # r \<and> n \<noteq> [] \<and> list_all isEntityNameChar n)"
proof
  assume a: "re_named_entity t \<noteq> None"
  then obtain t' where t: "t = 38 # t'"
    by (cases t) (auto simp add: re_named_entity_def startsWith_def js_def split: if_splits)
  let ?k = "run isEntityNameChar t'"
  from a t have k: "1 \<le> ?k" and s: "startsWith (drop ?k t') [59]"
    by (auto simp add: re_named_entity_def startsWith_def js_def Let_def split: if_splits)
  from s obtain r where r: "drop ?k t' = 59 # r"
    by (cases "drop ?k t'") (auto simp add: startsWith_def)
  have "t' = take ?k t' @ drop ?k t'" by simp
  with r have e: "t' = takeWhile isEntityNameChar t' @ 59 # r" by (simp add: take_run)
  have "takeWhile isEntityNameChar t' \<noteq> []" using k by (auto simp add: run_def)
  moreover have "list_all isEntityNameChar (takeWhile isEntityNameChar t')"
    by (auto simp add: list_all_iff dest: set_takeWhileD)
  ultimately show "\<exists>n r. t = 38 # n @ 59 # r \<and> n \<noteq> [] \<and> list_all isEntityNameChar n"
    using t e by blast
next
  assume "\<exists>n r. t = 38 # n @ 59 # r \<and> n \<noteq> [] \<and> list_all isEntityNameChar n"
  then obtain n r where "t = 38 # n @ 59 # r" "n \<noteq> []" "list_all isEntityNameChar n" by blast
  with re_named_entity_match [of n r] show "re_named_entity t \<noteq> None" by simp
qed

lemma test_append_left: "test m t \<Longrightarrow> test m (u @ t)"
  by (induction u) simp_all

lemma test_named_append_right: "test re_named_entity p \<Longrightarrow> test re_named_entity (p @ w)"
proof (induction p)
  case Nil
  then show ?case by (simp add: re_named_entity_def startsWith_def js_def)
next
  case (Cons c p)
  from Cons.prems have "re_named_entity (c # p) \<noteq> None \<or> test re_named_entity p" by simp
  then show ?case
  proof
    assume "re_named_entity (c # p) \<noteq> None"
    then obtain n r where "c # p = 38 # n @ 59 # r" "n \<noteq> []" "list_all isEntityNameChar n"
      unfolding re_named_entity_iff by blast
    then have "(c # p) @ w = 38 # n @ 59 # (r @ w) \<and> n \<noteq> [] \<and> list_all isEntityNameChar n"
      by simp
    then have "re_named_entity ((c # p) @ w) \<noteq> None" unfolding re_named_entity_iff by blast
    then show ?thesis by simp
  next
    assume "test re_named_entity p"
    with Cons.IH show ?thesis by simp
  qed
qed

lemma test_named_trim: "test re_named_entity (trim s) \<Longrightarrow> test re_named_entity s"
proof -
  assume a: "test re_named_entity (trim s)"
  let ?d = "dropWhile isWhiteSpace s"
  let ?w = "rev (takeWhile isWhiteSpace (rev ?d))"
  have "trim s @ ?w = rev (takeWhile isWhiteSpace (rev ?d) @ dropWhile isWhiteSpace (rev ?d))"
    by (simp only: trim_def rev_append)
  also have "\<dots> = rev (rev ?d)" by (simp only: takeWhile_dropWhile_id)
  also have "\<dots> = ?d" by simp
  finally have "?d = trim s @ ?w" by simp
  with test_named_append_right [OF a, of ?w]
  have "test re_named_entity ?d" by simp
  from test_append_left [OF this, of "takeWhile isWhiteSpace s"] show ?thesis by simp
qed

text \<open>A replacement by white space leaves every stretch without white space as it was.\<close>

lemma replaceAll_prefix:
  assumes rep: "rep \<noteq> []" "isWhiteSpace (hd rep)"
  shows "replaceAll m rep s = u @ r' \<Longrightarrow> \<forall>c \<in> set u. \<not> isWhiteSpace c \<Longrightarrow> \<exists>r. s = u @ r"
proof (induction u arbitrary: s r')
  case Nil
  show ?case by simp
next
  case (Cons c u)
  from Cons.prems(2) have c: "\<not> isWhiteSpace c" by simp
  have nr: "\<And>x. rep @ x \<noteq> c # u @ r'"
  proof
    fix x assume "rep @ x = c # u @ r'"
    with rep(1) have "hd rep = c" by (cases rep) simp_all
    with rep(2) c show False by simp
  qed
  show ?case
  proof (cases s)
    case Nil
    with Cons.prems(1) nr [of "[]"] show ?thesis by (cases "m []") simp_all
  next
    case (Cons d ds)
    show ?thesis
    proof (cases "m (d # ds)")
      case None
      with Cons Cons.prems(1) have "d = c" "replaceAll m rep ds = u @ r'" by simp_all
      moreover from Cons.prems(2) have "\<forall>c \<in> set u. \<not> isWhiteSpace c" by simp
      ultimately obtain r where "ds = u @ r" using Cons.IH by blast
      with \<open>d = c\<close> Cons show ?thesis by simp
    next
      case (Some n)
      show ?thesis
      proof (cases n)
        case 0
        with Some Cons Cons.prems(1) nr [of "d # replaceAll m rep ds"] show ?thesis by simp
      next
        case (Suc k)
        with Some Cons Cons.prems(1) nr [of "replaceAll m rep (drop k ds)"] show ?thesis by simp
      qed
    qed
  qed
qed

lemma name_not_ws: "list_all isEntityNameChar n \<Longrightarrow> \<forall>c \<in> set (n @ [59]). \<not> isWhiteSpace c"
  by (auto simp add: list_all_iff isEntityNameChar_def isLetter_def isDigit_def isWhiteSpace_def)

lemma test_named_ws: "\<forall>c \<in> set rep. isWhiteSpace c \<Longrightarrow> test re_named_entity (rep @ x) = test re_named_entity x"
proof (induction rep)
  case Nil
  show ?case by simp
next
  case (Cons c rep)
  then have "c \<noteq> 38" by (auto simp add: isWhiteSpace_def)
  then have "re_named_entity (c # rep @ x) = None"
    by (simp add: re_named_entity_def startsWith_def js_def)
  with Cons show ?case by simp
qed

lemma test_named_replaceAll:
  assumes rep: "rep \<noteq> []" "\<forall>c \<in> set rep. isWhiteSpace c"
  shows "test re_named_entity (replaceAll m rep s) \<Longrightarrow> test re_named_entity s"
  using rep
proof (induction m rep s rule: replaceAll.induct)
  case (1 m rep)
  from "1.prems"(3) have "test re_named_entity (rep @ []) = test re_named_entity []"
    by (rule test_named_ws)
  with "1.prems"(1) show ?case by (cases "m []") simp_all
next
  case (2 m rep c cs)
  note ws = test_named_ws [OF "2.prems"(3)]
  show ?case
  proof (cases "m (c # cs)")
    case None
    with "2.prems"(1) have "re_named_entity (c # replaceAll m rep cs) \<noteq> None
        \<or> test re_named_entity (replaceAll m rep cs)" by simp
    then show ?thesis
    proof
      assume "re_named_entity (c # replaceAll m rep cs) \<noteq> None"
      then obtain n r where n: "c # replaceAll m rep cs = 38 # n @ 59 # r" "n \<noteq> []"
          "list_all isEntityNameChar n"
        unfolding re_named_entity_iff by blast
      then have "replaceAll m rep cs = (n @ [59]) @ r" by simp
      moreover from "2.prems"(2,3) have "isWhiteSpace (hd rep)" by (cases rep) simp_all
      ultimately obtain r' where "cs = (n @ [59]) @ r'"
        using replaceAll_prefix [OF "2.prems"(2), of m cs "n @ [59]" r] name_not_ws [OF n(3)]
        by blast
      with n have "c # cs = 38 # n @ 59 # r' \<and> n \<noteq> [] \<and> list_all isEntityNameChar n" by simp
      then have "re_named_entity (c # cs) \<noteq> None" unfolding re_named_entity_iff by blast
      then show ?thesis by simp
    next
      assume "test re_named_entity (replaceAll m rep cs)"
      from "2.IH"(1) [OF None this "2.prems"(2,3)] show ?thesis by simp
    qed
  next
    case (Some n)
    show ?thesis
    proof (cases n)
      case 0
      with Some "2.prems"(1) have "test re_named_entity (rep @ c # replaceAll m rep cs)" by simp
      then have "re_named_entity (c # replaceAll m rep cs) \<noteq> None
        \<or> test re_named_entity (replaceAll m rep cs)" by (simp add: ws)
      then show ?thesis
      proof
        assume "re_named_entity (c # replaceAll m rep cs) \<noteq> None"
        then obtain n r where n: "c # replaceAll m rep cs = 38 # n @ 59 # r" "n \<noteq> []"
            "list_all isEntityNameChar n"
          unfolding re_named_entity_iff by blast
        then have "replaceAll m rep cs = (n @ [59]) @ r" by simp
        moreover from "2.prems"(2,3) have "isWhiteSpace (hd rep)" by (cases rep) simp_all
        ultimately obtain r' where "cs = (n @ [59]) @ r'"
          using replaceAll_prefix [OF "2.prems"(2), of m cs "n @ [59]" r] name_not_ws [OF n(3)]
          by blast
        with n have "c # cs = 38 # n @ 59 # r' \<and> n \<noteq> [] \<and> list_all isEntityNameChar n" by simp
        then have "re_named_entity (c # cs) \<noteq> None" unfolding re_named_entity_iff by blast
        then show ?thesis by simp
      next
        assume "test re_named_entity (replaceAll m rep cs)"
        from "2.IH"(2) [OF Some 0 this "2.prems"(2,3)] show ?thesis by simp
      qed
    next
      case (Suc k)
      with Some "2.prems"(1) have "test re_named_entity (rep @ replaceAll m rep (drop k cs))"
        by simp
      then have "test re_named_entity (replaceAll m rep (drop k cs))" by (simp add: ws)
      from "2.IH"(3) [OF Some Suc this "2.prems"(2,3)] have "test re_named_entity (drop k cs)" .
      from test_append_left [OF this, of "take k cs"] show ?thesis by simp
    qed
  qed
qed

lemma filter_pieces:
  assumes "\<forall>p \<in> set ps. filter Q (f p) = filter Q (g p)"
  shows "filter Q (concat (map f ps)) = filter Q (concat (map g ps))"
  using assms by (induction ps) simp_all

lemma test_tag_filter_eq:
  assumes "filter (\<lambda>c. c = 60 \<or> c = (62::nat)) D = filter (\<lambda>c. c = 60 \<or> c = 62) T"
  shows "test re_tag D = test re_tag T"
proof -
  have "test re_tag D = test re_tag (filter (\<lambda>c. c = 60 \<or> c = (62::nat)) D)"
    by (rule test_filter_angle [symmetric]) simp_all
  also have "\<dots> = test re_tag (filter (\<lambda>c. c = 60 \<or> c = (62::nat)) T)"
    by (simp only: assms)
  also have "\<dots> = test re_tag T"
    by (rule test_filter_angle) simp_all
  finally show ?thesis .
qed

lemma normalize_named:
  assumes "test re_named_entity
     (normalizeMultiline (replaceAll re_nl_blanks [10] (replaceAll re_blank2 [32] d)))"
  shows "test re_named_entity d"
proof -
  have r10: "test re_named_entity (replaceAll m [10] s) \<Longrightarrow> test re_named_entity s" for m s
    using test_named_replaceAll [of "[10]" m s] by (simp add: isWhiteSpace_def)
  have r32: "test re_named_entity (replaceAll m [32] s) \<Longrightarrow> test re_named_entity s" for m s
    using test_named_replaceAll [of "[32]" m s] by (simp add: isWhiteSpace_def)
  have r1010: "test re_named_entity (replaceAll m [10, 10] s) \<Longrightarrow> test re_named_entity s" for m s
    using test_named_replaceAll [of "[10, 10]" m s] by (simp add: isWhiteSpace_def)
  let ?a = "replaceAll re_blank2 [32] d"
  let ?b = "replaceAll re_nl_blanks [10] ?a"
  let ?c = "replaceAll re_crlf [10] ?b"
  let ?e = "replaceAll re_blanks_nl [10] ?c"
  let ?f = "replaceAll re_nl3 [10, 10] ?e"
  from assms have "test re_named_entity (trim ?f)" by (simp only: normalizeMultiline_def)
  then have "test re_named_entity ?f" by (rule test_named_trim)
  then have "test re_named_entity ?e" by (rule r1010)
  then have "test re_named_entity ?c" by (rule r10)
  then have "test re_named_entity ?b" by (rule r10)
  then have "test re_named_entity ?a" by (rule r10)
  then show "test re_named_entity d" by (rule r32)
qed

lemma written_no_angle:
  assumes "wellFormed p" and "isReference p"
  shows "filter (\<lambda>c. c = 60 \<or> c = 62) (written p) = []"
proof -
  have r: "\<And>a n. \<forall>c \<in> set n. c \<noteq> 60 \<and> c \<noteq> (62::nat) \<Longrightarrow> 60 \<notin> set a \<Longrightarrow> 62 \<notin> set a \<Longrightarrow>
            filter (\<lambda>c. c = 60 \<or> c = 62) (a @ n @ [59]) = []"
    by (simp add: filter_empty_conv) blast
  show ?thesis
  proof (cases p)
    case (Plain s)
    with assms show ?thesis by simp
  next
    case (Decimal ds)
    with assms have "\<forall>c \<in> set ds. isDigit c" by (simp add: list_all_iff)
    then have "\<forall>c \<in> set ds. c \<noteq> 60 \<and> c \<noteq> 62" by (simp add: isDigit_def) fastforce
    from r [OF this, of "[38, 35]"] Decimal show ?thesis by (simp add: js_def)
  next
    case (Hexadecimal hs)
    with assms have "\<forall>c \<in> set hs. isHexDigit c" by (simp add: list_all_iff)
    then have "\<forall>c \<in> set hs. c \<noteq> 60 \<and> c \<noteq> 62"
      by (simp add: isHexDigit_def isDigit_def) fastforce
    from r [OF this, of "[38, 35, 120]"] Hexadecimal show ?thesis by (simp add: js_def)
  next
    case (Named n)
    with assms obtain v where "map_of spec_namedEntities n = Some v" by auto
    from spec_namedEntities_known [OF this] have "\<forall>c \<in> set n. isLetter c" by (simp add: list_all_iff)
    then have "\<forall>c \<in> set n. c \<noteq> 60 \<and> c \<noteq> 62" by (simp add: isLetter_def) fastforce
    from r [OF this, of "[38]"] Named show ?thesis by (simp add: js_def)
  qed
qed

lemma decoded_no_amp:
  assumes "wellFormed p" and "p \<noteq> Named (js ''amp'')"
  shows "38 \<notin> set (decoded p)"
proof (cases p)
  case (Plain s)
  with assms show ?thesis by simp
next
  case (Decimal ds)
  with assms show ?thesis by (simp add: codeUnits_no_amp)
next
  case (Hexadecimal hs)
  with assms show ?thesis by (simp add: codeUnits_no_amp)
next
  case (Named n)
  with assms obtain v where v: "map_of spec_namedEntities n = Some v" by auto
  then have "(n, v) \<in> set spec_namedEntities" by (rule map_of_SomeD)
  then have "n = js ''amp'' \<or> 38 \<notin> set v"
    by (auto simp add: spec_namedEntities_def js_def)
  with assms Named v show ?thesis by auto
qed

text \<open>
  The expression for named references, \<open>/&([a-zA-Z0-9#]+);/\<close>, matches the decimal and
  the hexadecimal references too, so a text without a match of it holds no entity
  reference of any kind.
\<close>

lemma re_dec_entity_named: "re_dec_entity t \<noteq> None \<Longrightarrow> re_named_entity t \<noteq> None"
proof -
  assume a: "re_dec_entity t \<noteq> None"
  then obtain t' where t: "t = 38 # 35 # t'"
    by (cases t; cases "tl t")
       (auto simp add: re_dec_entity_def startsWith_def js_def split: if_splits)
  let ?k = "run isDigit t'"
  from a t have k: "1 \<le> ?k" and s: "startsWith (drop ?k t') [59]"
    by (auto simp add: re_dec_entity_def startsWith_def js_def Let_def split: if_splits)
  from s obtain r where r: "drop ?k t' = 59 # r"
    by (cases "drop ?k t'") (auto simp add: startsWith_def)
  have "t' = take ?k t' @ drop ?k t'" by simp
  with r have e: "t' = takeWhile isDigit t' @ 59 # r" by (simp add: take_run)
  have "list_all isEntityNameChar (35 # takeWhile isDigit t')"
    by (auto simp add: list_all_iff isEntityNameChar_def dest: set_takeWhileD)
  moreover from t e have "t = 38 # (35 # takeWhile isDigit t') @ 59 # r" by simp
  ultimately have "\<exists>n r. t = 38 # n @ 59 # r \<and> n \<noteq> [] \<and> list_all isEntityNameChar n"
    by blast
  then show ?thesis unfolding re_named_entity_iff .
qed

lemma re_hex_entity_named: "re_hex_entity t \<noteq> None \<Longrightarrow> re_named_entity t \<noteq> None"
proof -
  assume a: "re_hex_entity t \<noteq> None"
  then have sw: "startsWith t [38, 35, 120]"
    by (auto simp add: re_hex_entity_def js_def split: if_splits)
  then have "t = [38, 35, 120] @ drop 3 t"
    unfolding startsWith_def by (metis append_take_drop_id length_Cons list.size(3) numeral_3_eq_3)
  then obtain t' where t: "t = 38 # 35 # 120 # t'" by simp
  let ?k = "run isHexDigit t'"
  from a t have k: "1 \<le> ?k" and s: "startsWith (drop ?k t') [59]"
    by (auto simp add: re_hex_entity_def startsWith_def js_def Let_def numeral_3_eq_3
        split: if_splits)
  from s obtain r where r: "drop ?k t' = 59 # r"
    by (cases "drop ?k t'") (auto simp add: startsWith_def)
  have "t' = take ?k t' @ drop ?k t'" by simp
  with r have e: "t' = takeWhile isHexDigit t' @ 59 # r" by (simp add: take_run)
  have "\<forall>c. isHexDigit c \<longrightarrow> isEntityNameChar c"
    by (auto simp add: isHexDigit_def isEntityNameChar_def isLetter_def isDigit_def)
  then have "list_all isEntityNameChar (35 # 120 # takeWhile isHexDigit t')"
    by (auto simp add: list_all_iff isEntityNameChar_def isLetter_def dest: set_takeWhileD)
  moreover from t e have "t = 38 # (35 # 120 # takeWhile isHexDigit t') @ 59 # r" by simp
  ultimately have "\<exists>n r. t = 38 # n @ 59 # r \<and> n \<noteq> [] \<and> list_all isEntityNameChar n"
    by blast
  then show ?thesis unfolding re_named_entity_iff .
qed

lemma test_mono:
  assumes "\<And>t. m t \<noteq> None \<Longrightarrow> m' t \<noteq> None"
  shows "test m s \<Longrightarrow> test m' s"
  using assms by (induction s) auto

lemma no_named_no_numeric:
  "\<not> test re_named_entity s \<Longrightarrow> \<not> test re_dec_entity s \<and> \<not> test re_hex_entity s"
  using test_mono [of re_dec_entity re_named_entity s, OF re_dec_entity_named]
    test_mono [of re_hex_entity re_named_entity s, OF re_hex_entity_named]
  by blast

text \<open>
  Claim C7 as stated fails: entities are decoded after the tags are stripped, and the
  decoded text is not looked at again. An encoded tag comes out as a tag, and an encoded
  ampersand can leave an entity reference behind; both are matched by the program's own
  expressions for a tag and for a named entity.
\<close>

theorem stripHtmlToText_decoded_markup:
  "stripHtmlToText (js ''&lt;b&gt; &amp;amp;'') = Inr (js ''<b> &amp;'')
   \<and> test re_tag (js ''<b> &amp;'') \<and> test re_named_entity (js ''<b> &amp;'')"
  by (simp add: eval_strip)

text \<open>
  Claim C7, amended. For every input string, the text handed to \<open>decodeHtmlEntities\<close>
  contains no tag (no \<open><\<close> with a \<open>>\<close> behind it). Whenever that text is well formed,
  that is a sequence \<open>ps\<close> of plain pieces without an ampersand and of decimal,
  hexadecimal and named references that the decoder knows, \<open>stripHtmlToText\<close> returns,
  and its output is the white-space normalization of the text in which every reference
  is replaced by the character it stands for. That output contains a tag exactly when the
  decoded text does, and an entity reference only when the decoded text does. Hence it
  contains no tag when no reference stands for \<open><\<close> or \<open>>\<close>, and no ampersand, so no
  entity reference, when no reference is \<open>&amp;\<close>. An entity reference is a match of
  the expression for named references, which covers the numeric ones
  (\<open>no_named_no_numeric\<close>). And
  \<open>stripHtmlToText("<p>a</p><p>b</p>")\<close> is the two lines \<open>a\<close> and \<open>b\<close>.
\<close>

theorem stripHtmlToText_clean:
  "\<not> test re_tag (stripTags html)
   \<and> (stripTags html = concat (map written ps) \<and> list_all wellFormed ps \<longrightarrow>
        (\<exists>out. stripHtmlToText html = Inr out
           \<and> out = normalizeMultiline (replaceAll re_nl_blanks [10]
                   (replaceAll re_blank2 (js '' '') (concat (map decoded ps))))
           \<and> test re_tag out = test re_tag (concat (map decoded ps))
           \<and> (test re_named_entity out \<longrightarrow> test re_named_entity (concat (map decoded ps)))
           \<and> ((\<forall>p \<in> set ps. isReference p \<longrightarrow> 60 \<notin> set (decoded p) \<and> 62 \<notin> set (decoded p))
                \<longrightarrow> \<not> test re_tag out)
           \<and> (Named (js ''amp'') \<notin> set ps \<longrightarrow> 38 \<notin> set out \<and> \<not> test re_named_entity out)))
   \<and> stripHtmlToText (js ''<p>a</p><p>b</p>'') = Inr (js ''a'' @ [10] @ js ''b'')"
proof -
  let ?P = "\<lambda>c. c = 60 \<or> c = 62 \<or> c = (38::nat)"
  let ?Q = "\<lambda>c. c = 60 \<or> c = (62::nat)"
  let ?D = "concat (map decoded ps)"
  let ?out = "normalizeMultiline (replaceAll re_nl_blanks [10] (replaceAll re_blank2 [32] ?D))"
  have b: "stripTags html = concat (map written ps) \<and> list_all wellFormed ps \<longrightarrow>
        (\<exists>out. stripHtmlToText html = Inr out
           \<and> out = normalizeMultiline (replaceAll re_nl_blanks [10]
                   (replaceAll re_blank2 (js '' '') (concat (map decoded ps))))
           \<and> test re_tag out = test re_tag (concat (map decoded ps))
           \<and> (test re_named_entity out \<longrightarrow> test re_named_entity (concat (map decoded ps)))
           \<and> ((\<forall>p \<in> set ps. isReference p \<longrightarrow> 60 \<notin> set (decoded p) \<and> 62 \<notin> set (decoded p))
                \<longrightarrow> \<not> test re_tag out)
           \<and> (Named (js ''amp'') \<notin> set ps \<longrightarrow> 38 \<notin> set out \<and> \<not> test re_named_entity out))"
  proof
    assume a: "stripTags html = concat (map written ps) \<and> list_all wellFormed ps"
    then have T: "stripTags html = concat (map written ps)"
      and wf: "\<forall>p \<in> set ps. wellFormed p" by (simp_all add: list_all_iff)
    have e: "stripHtmlToText html = Inr ?out"
      by (simp add: stripHtmlToText_def T decodeHtmlEntities_pieces [OF wf] js_def)
    have o: "?out = normalizeMultiline (replaceAll re_nl_blanks [10]
                   (replaceAll re_blank2 (js '' '') ?D))" by (simp add: js_def)
    have f: "filter ?P ?out = filter ?P ?D" by (rule normalize_filter)
    have "test re_tag ?out = test re_tag (filter ?P ?out)" by (simp only: test_filter_tag)
    also have "\<dots> = test re_tag ?D" by (simp only: f test_filter_tag)
    finally have t: "test re_tag ?out = test re_tag ?D" .
    have n: "test re_named_entity ?out \<longrightarrow> test re_named_entity ?D"
      using normalize_named by blast
    have g: "(\<forall>p \<in> set ps. isReference p \<longrightarrow> 60 \<notin> set (decoded p) \<and> 62 \<notin> set (decoded p))
                \<longrightarrow> \<not> test re_tag ?out"
    proof
      assume h: "\<forall>p \<in> set ps. isReference p \<longrightarrow> 60 \<notin> set (decoded p) \<and> 62 \<notin> set (decoded p)"
      have "\<forall>p \<in> set ps. filter ?Q (decoded p) = filter ?Q (written p)"
      proof
        fix p assume p: "p \<in> set ps"
        show "filter ?Q (decoded p) = filter ?Q (written p)"
        proof (cases "isReference p")
          case True
          with h p have "filter ?Q (decoded p) = []" by (auto simp add: filter_empty_conv)
          with written_no_angle [OF _ True] wf p show ?thesis by simp
        next
          case False
          then show ?thesis by (cases p) simp_all
        qed
      qed
      then have "filter ?Q ?D = filter ?Q (concat (map written ps))" by (rule filter_pieces)
      then have "filter ?Q ?D = filter ?Q (stripTags html)" by (simp only: T)
      then have "test re_tag ?D = test re_tag (stripTags html)" by (rule test_tag_filter_eq)
      with t stripTags_no_tag show "\<not> test re_tag ?out" by simp
    qed
    have m: "Named (js ''amp'') \<notin> set ps \<longrightarrow> 38 \<notin> set ?out \<and> \<not> test re_named_entity ?out"
    proof
      assume h: "Named (js ''amp'') \<notin> set ps"
      have "\<forall>p \<in> set ps. 38 \<notin> set (decoded p)"
        using wf h decoded_no_amp by blast
      then have d: "38 \<notin> set ?D" by simp
      have "(38 \<in> set ?out) = (38 \<in> set (filter ?P ?out))" by simp
      also have "\<dots> = (38 \<in> set (filter ?P ?D))" by (simp only: f)
      finally have x: "38 \<notin> set ?out" using d by simp
      have "\<not> test re_named_entity ?out"
        using x re_named_entity_amp by (intro test_no_match [where x = 38]) auto
      with x show "38 \<notin> set ?out \<and> \<not> test re_named_entity ?out" by simp
    qed
    from e o t n g m show "\<exists>out. stripHtmlToText html = Inr out
           \<and> out = normalizeMultiline (replaceAll re_nl_blanks [10]
                   (replaceAll re_blank2 (js '' '') (concat (map decoded ps))))
           \<and> test re_tag out = test re_tag (concat (map decoded ps))
           \<and> (test re_named_entity out \<longrightarrow> test re_named_entity (concat (map decoded ps)))
           \<and> ((\<forall>p \<in> set ps. isReference p \<longrightarrow> 60 \<notin> set (decoded p) \<and> 62 \<notin> set (decoded p))
                \<longrightarrow> \<not> test re_tag out)
           \<and> (Named (js ''amp'') \<notin> set ps \<longrightarrow> 38 \<notin> set out \<and> \<not> test re_named_entity out)"
      by (intro exI [of _ ?out]) (simp only: simp_thms)
  qed
  have c: "stripHtmlToText (js ''<p>a</p><p>b</p>'') = Inr (js ''a'' @ [10] @ js ''b'')"
    by (simp add: eval_strip)
  from stripTags_no_tag b c show ?thesis by blast
qed

text \<open>
  The witness: a text with a named, a decimal and a hexadecimal reference, which comes
  out as \<open>a b AB\<close>; and a paragraph with an encoded ampersand, which comes out as
  \<open>R & D\<close>, an ampersand that starts no reference.
\<close>

theorem stripHtmlToText_clean_witness:
  "stripTags (js ''a&nbsp;b &#65;&#x42;'')
     = concat (map written [Plain (js ''a''), Named (js ''nbsp''), Plain (js ''b ''),
                            Decimal (js ''65''), Hexadecimal (js ''42'')])
   \<and> list_all wellFormed [Plain (js ''a''), Named (js ''nbsp''), Plain (js ''b ''),
                           Decimal (js ''65''), Hexadecimal (js ''42'')]
   \<and> stripHtmlToText (js ''a&nbsp;b &#65;&#x42;'') = Inr (js ''a b AB'')
   \<and> \<not> test re_tag (js ''a b AB'') \<and> 38 \<notin> set (js ''a b AB'')
   \<and> \<not> test re_named_entity (js ''a b AB'')
   \<and> stripTags (js ''<p>R &amp; D</p>'')
     = concat (map written [Plain (js '' R ''), Named (js ''amp''), Plain (js '' D'' @ [10])])
   \<and> list_all wellFormed [Plain (js '' R ''), Named (js ''amp''), Plain (js '' D'' @ [10])]
   \<and> stripHtmlToText (js ''<p>R &amp; D</p>'') = Inr (js ''R & D'')
   \<and> \<not> test re_tag (js ''R & D'') \<and> \<not> test re_named_entity (js ''R & D'')"
proof -
  let ?h1 = "js ''a&nbsp;b &#65;&#x42;''"
  let ?p1 = "[Plain (js ''a''), Named (js ''nbsp''), Plain (js ''b ''),
              Decimal (js ''65''), Hexadecimal (js ''42'')]"
  let ?h2 = "js ''<p>R &amp; D</p>''"
  let ?p2 = "[Plain (js '' R ''), Named (js ''amp''), Plain (js '' D'' @ [10])]"
  have s1: "stripTags ?h1 = concat (map written ?p1)" by (simp add: eval_strip)
  have w1: "list_all wellFormed ?p1"
    by (simp add: js_def spec_namedEntities_def isDigit_def isHexDigit_def digitsValue_def
        digitValue_def)
  have d1: "concat (map decoded ?p1) = js ''a b AB''"
    by (simp add: js_def spec_namedEntities_def codeUnits_def digitsValue_def digitValue_def)
  have n1: "normalizeMultiline (replaceAll re_nl_blanks [10]
              (replaceAll re_blank2 (js '' '') (js ''a b AB''))) = js ''a b AB''"
    by (simp add: eval_strip)
  have a1: "Named (js ''amp'') \<notin> set ?p1" by (simp add: js_def)
  have r1: "\<forall>p \<in> set ?p1. isReference p \<longrightarrow> 60 \<notin> set (decoded p) \<and> 62 \<notin> set (decoded p)"
    by (simp add: js_def spec_namedEntities_def codeUnits_def digitsValue_def digitValue_def)
  from stripHtmlToText_clean [of ?h1 ?p1]
  have "stripTags ?h1 = concat (map written ?p1) \<and> list_all wellFormed ?p1 \<longrightarrow>
        (\<exists>out. stripHtmlToText ?h1 = Inr out
           \<and> out = normalizeMultiline (replaceAll re_nl_blanks [10]
                   (replaceAll re_blank2 (js '' '') (concat (map decoded ?p1))))
           \<and> test re_tag out = test re_tag (concat (map decoded ?p1))
           \<and> (test re_named_entity out \<longrightarrow> test re_named_entity (concat (map decoded ?p1)))
           \<and> ((\<forall>p \<in> set ?p1. isReference p \<longrightarrow> 60 \<notin> set (decoded p) \<and> 62 \<notin> set (decoded p))
                \<longrightarrow> \<not> test re_tag out)
           \<and> (Named (js ''amp'') \<notin> set ?p1 \<longrightarrow> 38 \<notin> set out \<and> \<not> test re_named_entity out))"
    by (rule conjunct1 [OF conjunct2])
  with s1 w1 obtain out1 where o1: "stripHtmlToText ?h1 = Inr out1"
      "out1 = normalizeMultiline (replaceAll re_nl_blanks [10]
                   (replaceAll re_blank2 (js '' '') (concat (map decoded ?p1))))"
      "test re_named_entity out1 \<longrightarrow> test re_named_entity (concat (map decoded ?p1))"
      "(\<forall>p \<in> set ?p1. isReference p \<longrightarrow> 60 \<notin> set (decoded p) \<and> 62 \<notin> set (decoded p))
                \<longrightarrow> \<not> test re_tag out1"
      "Named (js ''amp'') \<notin> set ?p1 \<longrightarrow> 38 \<notin> set out1 \<and> \<not> test re_named_entity out1"
    by blast
  from o1(2) have out1: "out1 = js ''a b AB''" by (simp only: d1 n1)
  from o1(1,4,5) r1 a1 have c1: "stripHtmlToText ?h1 = Inr (js ''a b AB'') \<and> \<not> test re_tag (js ''a b AB'')
      \<and> 38 \<notin> set (js ''a b AB'') \<and> \<not> test re_named_entity (js ''a b AB'')"
    unfolding out1 by blast
  have s2: "stripTags ?h2 = concat (map written ?p2)" by (simp add: eval_strip)
  have w2: "list_all wellFormed ?p2" by (simp add: js_def spec_namedEntities_def)
  have d2: "concat (map decoded ?p2) = js '' R & D'' @ [10]"
    by (simp add: js_def spec_namedEntities_def)
  have n2: "normalizeMultiline (replaceAll re_nl_blanks [10]
              (replaceAll re_blank2 (js '' '') (js '' R & D'' @ [10]))) = js ''R & D''"
    by (simp add: eval_strip)
  have r2: "\<forall>p \<in> set ?p2. isReference p \<longrightarrow> 60 \<notin> set (decoded p) \<and> 62 \<notin> set (decoded p)"
    by (simp add: js_def spec_namedEntities_def)
  have e2: "\<not> test re_named_entity (js '' R & D'' @ [10])"
    by (simp add: eval_strip)
  from stripHtmlToText_clean [of ?h2 ?p2]
  have "stripTags ?h2 = concat (map written ?p2) \<and> list_all wellFormed ?p2 \<longrightarrow>
        (\<exists>out. stripHtmlToText ?h2 = Inr out
           \<and> out = normalizeMultiline (replaceAll re_nl_blanks [10]
                   (replaceAll re_blank2 (js '' '') (concat (map decoded ?p2))))
           \<and> test re_tag out = test re_tag (concat (map decoded ?p2))
           \<and> (test re_named_entity out \<longrightarrow> test re_named_entity (concat (map decoded ?p2)))
           \<and> ((\<forall>p \<in> set ?p2. isReference p \<longrightarrow> 60 \<notin> set (decoded p) \<and> 62 \<notin> set (decoded p))
                \<longrightarrow> \<not> test re_tag out)
           \<and> (Named (js ''amp'') \<notin> set ?p2 \<longrightarrow> 38 \<notin> set out \<and> \<not> test re_named_entity out))"
    by (rule conjunct1 [OF conjunct2])
  with s2 w2 obtain out2 where o2: "stripHtmlToText ?h2 = Inr out2"
      "out2 = normalizeMultiline (replaceAll re_nl_blanks [10]
                   (replaceAll re_blank2 (js '' '') (concat (map decoded ?p2))))"
      "test re_named_entity out2 \<longrightarrow> test re_named_entity (concat (map decoded ?p2))"
      "(\<forall>p \<in> set ?p2. isReference p \<longrightarrow> 60 \<notin> set (decoded p) \<and> 62 \<notin> set (decoded p))
                \<longrightarrow> \<not> test re_tag out2"
      "Named (js ''amp'') \<notin> set ?p2 \<longrightarrow> 38 \<notin> set out2 \<and> \<not> test re_named_entity out2"
    by blast
  from o2(2) have out2: "out2 = js ''R & D''" by (simp only: d2 n2)
  from o2(3) e2 have "\<not> test re_named_entity out2" by (simp only: d2) blast
  with o2(1,4) r2 have c2: "stripHtmlToText ?h2 = Inr (js ''R & D'') \<and> \<not> test re_tag (js ''R & D'')
      \<and> \<not> test re_named_entity (js ''R & D'')"
    unfolding out2 by blast
  from s1 w1 c1 s2 w2 c2 show ?thesis by simp
qed

section \<open>Properties of the scope filter\<close>

lemma re_last_segment_Some: "47 \<notin> set s \<Longrightarrow> re_last_segment s = Some (length s)"
  by (simp add: re_last_segment_def run_all)

lemma re_last_segment_None: "47 \<in> set s \<Longrightarrow> re_last_segment s = None"
  by (auto simp add: re_last_segment_def run_all)

lemma spec_rootDir_no_slash: "47 \<notin> set s \<Longrightarrow> spec_rootDir s = []"
  by (auto simp add: spec_rootDir_def)

lemma spec_rootDir_Cons_slash: "47 \<in> set cs \<Longrightarrow> spec_rootDir (c # cs) = c # spec_rootDir cs"
  by (simp add: spec_rootDir_def dropWhile_append1)

lemma spec_rootDir_slash_only:
  assumes "47 \<notin> set cs"
  shows "spec_rootDir (47 # cs) = [47]"
proof -
  have "dropWhile (\<lambda>c. c \<noteq> 47) (rev cs @ [47]) = dropWhile (\<lambda>c. c \<noteq> 47) [47]"
    by (rule dropWhile_append2) (use assms in auto)
  then show ?thesis by (simp add: spec_rootDir_def)
qed

lemma replaceFirst_last_segment:
  "replaceFirst re_last_segment [] p = spec_rootDir p"
proof (induction p)
  case Nil
  show ?case by (simp add: re_last_segment_Some spec_rootDir_no_slash)
next
  case (Cons c cs)
  show ?case
  proof (cases "47 \<in> set (c # cs)")
    case False
    then have "re_last_segment (c # cs) = Some (length (c # cs))"
      and "spec_rootDir (c # cs) = []"
      by (rule re_last_segment_Some, rule spec_rootDir_no_slash)
    then show ?thesis by simp
  next
    case True
    then have "re_last_segment (c # cs) = None" by (rule re_last_segment_None)
    then have l: "replaceFirst re_last_segment [] (c # cs) = c # spec_rootDir cs"
      using Cons.IH by simp
    show ?thesis
    proof (cases "47 \<in> set cs")
      case True
      then have "spec_rootDir (c # cs) = c # spec_rootDir cs" by (rule spec_rootDir_Cons_slash)
      with l show ?thesis by simp
    next
      case False
      with True have c: "c = 47" by simp
      from False have "spec_rootDir (47 # cs) = [47]" and "spec_rootDir cs = []"
        by (rule spec_rootDir_slash_only, rule spec_rootDir_no_slash)
      with l c show ?thesis by simp
    qed
  qed
qed

lemma spec_rootDir_trailing_slash:
  "p \<noteq> [] \<Longrightarrow> last p = 47 \<Longrightarrow> spec_rootDir p = p"
  by (cases p rule: rev_cases) (auto simp: spec_rootDir_def)

lemma test_iff: "test m s = (\<exists>i \<le> length s. m (drop i s) \<noteq> None)"
proof (induction s)
  case Nil then show ?case by simp
next
  case (Cons c cs)
  have "(\<exists>i \<le> length (c # cs). m (drop i (c # cs)) \<noteq> None)
        = (m (c # cs) \<noteq> None \<or> (\<exists>i \<le> length cs. m (drop i cs) \<noteq> None))"
  proof
    assume "\<exists>i \<le> length (c # cs). m (drop i (c # cs)) \<noteq> None"
    then obtain i where i: "i \<le> length (c # cs)" "m (drop i (c # cs)) \<noteq> None" by blast
    show "m (c # cs) \<noteq> None \<or> (\<exists>i \<le> length cs. m (drop i cs) \<noteq> None)"
    proof (cases i)
      case 0 with i show ?thesis by simp
    next
      case (Suc k) with i have "k \<le> length cs \<and> m (drop k cs) \<noteq> None" by simp
      then show ?thesis by blast
    qed
  next
    assume "m (c # cs) \<noteq> None \<or> (\<exists>i \<le> length cs. m (drop i cs) \<noteq> None)"
    then show "\<exists>i \<le> length (c # cs). m (drop i (c # cs)) \<noteq> None"
    proof
      assume "m (c # cs) \<noteq> None"
      then have "0 \<le> length (c # cs) \<and> m (drop 0 (c # cs)) \<noteq> None" by simp
      then show ?thesis by blast
    next
      assume "\<exists>i \<le> length cs. m (drop i cs) \<noteq> None"
      then obtain k where "k \<le> length cs" "m (drop k cs) \<noteq> None" by blast
      then have "Suc k \<le> length (c # cs) \<and> m (drop (Suc k) (c # cs)) \<noteq> None" by simp
      then show ?thesis by blast
    qed
  qed
  with Cons.IH show ?case by simp
qed

lemma re_doc_drop:
  assumes "i \<le> length s"
  shows "(re_doc (drop i s) \<noteq> None) =
     ((length s - i = 4 \<and> startsWithCI (drop i s) (js ''.htm''))
      \<or> (length s - i = 5 \<and> startsWithCI (drop i s) (js ''.html''))
      \<or> drop i s = [47])"
  by (simp add: re_doc_def)

lemma endsWithCI_iff:
  "endsWithCI s pat = (\<exists>i \<le> length s. length s - i = length pat \<and> startsWithCI (drop i s) pat)"
proof
  assume e: "endsWithCI s pat"
  then have "length s - length pat \<le> length s \<and> length s - (length s - length pat) = length pat
     \<and> startsWithCI (drop (length s - length pat) s) pat"
    by (simp add: endsWithCI_def startsWithCI_def)
  then show "\<exists>i \<le> length s. length s - i = length pat \<and> startsWithCI (drop i s) pat" by blast
next
  assume "\<exists>i \<le> length s. length s - i = length pat \<and> startsWithCI (drop i s) pat"
  then obtain i where i: "i \<le> length s" "length s - i = length pat" "startsWithCI (drop i s) pat"
    by blast
  then have "i = length s - length pat" by arith
  with i show "endsWithCI s pat" by (simp add: endsWithCI_def startsWithCI_def)
qed

lemma single_slash: "(t = [47]) = (length t = 1 \<and> startsWithCI t [47])"
proof (cases t)
  case Nil then show ?thesis by simp
next
  case (Cons c r)
  then show ?thesis by (cases r) (simp_all add: startsWithCI_def ciEq_def)
qed

lemma slash_suffix: "(\<exists>i \<le> length s. drop i s = [47]) = endsWithCI s (js ''/'')"
proof -
  have j: "js ''/'' = [47]" by (simp add: js_def)
  have "(\<exists>i \<le> length s. drop i s = [47]) = (\<exists>i \<le> length s. length s - i = 1 \<and> startsWithCI (drop i s) [47])"
    by (subst single_slash) simp
  then show ?thesis unfolding endsWithCI_iff j by simp
qed

lemma test_re_doc:
  "test re_doc p = (endsWithCI p (js ''.htm'') \<or> endsWithCI p (js ''.html'') \<or> endsWithCI p (js ''/''))"
proof -
  have "test re_doc p = (\<exists>i \<le> length p. (length p - i = 4 \<and> startsWithCI (drop i p) (js ''.htm''))
      \<or> (length p - i = 5 \<and> startsWithCI (drop i p) (js ''.html''))
      \<or> drop i p = [47])"
    unfolding test_iff using re_doc_drop by blast
  also have "\<dots> = ((\<exists>i \<le> length p. length p - i = length (js ''.htm'') \<and> startsWithCI (drop i p) (js ''.htm''))
      \<or> (\<exists>i \<le> length p. length p - i = length (js ''.html'') \<and> startsWithCI (drop i p) (js ''.html''))
      \<or> (\<exists>i \<le> length p. drop i p = [47]))"
  proof -
    have "length (js ''.htm'') = 4" "length (js ''.html'') = 5" by (simp_all add: js_def)
    then show ?thesis by (simp only: ex_disj_distrib conj_disj_distribL)
  qed
  finally show ?thesis unfolding slash_suffix endsWithCI_iff .
qed

text \<open>
  Claim C4. For a root and a candidate that parse as URLs, \<open>isAllowedGuideUrl\<close> returns
  true exactly when the hosts are equal, the candidate path starts with the root path up
  to and including its last slash, and the candidate path ends in \<open>.htm\<close> or \<open>.html\<close>
  in any case or in a slash; it returns false in every other case.
\<close>

theorem isAllowedGuideUrl_spec:
  assumes "newURL (GUIDE_ROOT_URL cfg) = Some root" and "newURL u_str = Some u"
  shows "isAllowedGuideUrl newURL cfg u_str = Inr (spec_allowed root u)"
proof -
  have rd: "(if pathname root \<noteq> [] \<and> last (pathname root) = 47 then pathname root
             else replaceFirst re_last_segment [] (pathname root)) = spec_rootDir (pathname root)"
    by (simp add: replaceFirst_last_segment spec_rootDir_trailing_slash)
  show ?thesis
    using assms unfolding isAllowedGuideUrl_def
    by (simp add: rd test_re_doc spec_allowed_def)
qed

theorem isAllowedGuideUrl_spec_witness:
  "newURL_plain (GUIDE_ROOT_URL cfg0)
     = Some \<lparr>href = js ''https://example.com/portal/index.html'', host = js ''example.com'',
             pathname = js ''/portal/index.html''\<rparr>
   \<and> newURL_plain (js ''https://example.com/portal/a.HTML'')
     = Some \<lparr>href = js ''https://example.com/portal/a.HTML'', host = js ''example.com'',
             pathname = js ''/portal/a.HTML''\<rparr>
   \<and> isAllowedGuideUrl newURL_plain cfg0 (js ''https://example.com/portal/a.HTML'') = Inr True
   \<and> isAllowedGuideUrl newURL_plain cfg0 (js ''https://example.com/other/a.html'') = Inr False
   \<and> isAllowedGuideUrl newURL_plain cfg0 (js ''https://example.org/portal/a.html'') = Inr False
   \<and> isAllowedGuideUrl newURL_plain cfg0 (js ''https://example.com/portal/a.png'') = Inr False"
proof -
  let ?root = "\<lparr>href = js ''https://example.com/portal/index.html'', host = js ''example.com'',
             pathname = js ''/portal/index.html''\<rparr>"
  let ?u = "\<lparr>href = js ''https://example.com/portal/a.HTML'', host = js ''example.com'',
             pathname = js ''/portal/a.HTML''\<rparr>"
  have h: "newURL_plain (GUIDE_ROOT_URL cfg0) = Some ?root"
    "newURL_plain (js ''https://example.com/portal/a.HTML'') = Some ?u"
    by (simp_all add: newURL_plain_def cfg0_def js_def startsWith_def)
  have s: "spec_allowed ?root ?u"
    by (simp add: spec_allowed_def spec_rootDir_def endsWithCI_def ciEq_def js_def startsWith_def)
  have o: "isAllowedGuideUrl newURL_plain cfg0 (js ''https://example.com/other/a.html'') = Inr False"
    "isAllowedGuideUrl newURL_plain cfg0 (js ''https://example.org/portal/a.html'') = Inr False"
    "isAllowedGuideUrl newURL_plain cfg0 (js ''https://example.com/portal/a.png'') = Inr False"
    by (simp_all add: isAllowedGuideUrl_def newURL_plain_def cfg0_def js_def startsWith_def
        re_last_segment_def re_doc_def run_def startsWithCI_def ciEq_def)
  show ?thesis
    using h s o isAllowedGuideUrl_spec [OF h] by simp
qed

section \<open>Properties of the crawler\<close>

text \<open>What one turn of the loop does to the queue, the visited set and the world.\<close>

lemma extractHrefLinks_distinct: "distinct (extractHrefLinks resolveURL html u)"
  by (simp add: extractHrefLinks_def unique_def uniqueAcc_distinct)

lemma filterLinks_Inr:
  "filterLinks newURL cfg visited ls = Inr out \<Longrightarrow>
   set out \<subseteq> set ls \<and> (\<forall>u \<in> set out. u \<notin> set visited) \<and> (distinct ls \<longrightarrow> distinct out)"
proof (induction ls arbitrary: out)
  case Nil
  then show ?case by simp
next
  case (Cons a ls)
  show ?case
  proof (cases "a \<in> set visited")
    case True
    with Cons.prems have "filterLinks newURL cfg visited ls = Inr out" by simp
    from Cons.IH [OF this] show ?thesis by auto
  next
    case False
    with Cons.prems obtain ok ls' where
      r: "filterLinks newURL cfg visited ls = Inr ls'" "out = (if ok then a # ls' else ls')"
      by (auto split: sum.splits)
    from Cons.IH [OF r(1)] r(2) False show ?thesis by auto
  qed
qed

lemma crawlStep_cases:
  assumes "crawlStep newURL resolveURL fetch cfg (st, w) = Inr (st', w')"
  shows "(st' = st \<and> w' = w \<and> crawl_queue st = [])
    \<or> (\<exists>u rest. crawl_queue st = u # rest \<and> (u = [] \<or> u \<in> set (crawl_visited st))
          \<and> st' = st\<lparr>crawl_queue := rest\<rparr> \<and> w' = w)
    \<or> (\<exists>u rest links r. crawl_queue st = u # rest \<and> u \<notin> set (crawl_visited st)
          \<and> crawl_visited st' = crawl_visited st @ [u]
          \<and> crawl_queue st' = rest @ links
          \<and> distinct links \<and> length links \<le> 60 \<and> (\<forall>x \<in> set links. x \<notin> set (crawl_visited st'))
          \<and> (w' = w \<or> (r, w') = fetch u w))"
proof (cases "crawl_queue st")
  case Nil
  with assms show ?thesis by (simp add: crawlStep_def)
next
  case (Cons u rest)
  show ?thesis
  proof (cases "u = [] \<or> u \<in> set (crawl_visited st)")
    case True
    with assms Cons show ?thesis by (auto simp add: crawlStep_def)
  next
    case False
    let ?st1 = "st\<lparr>crawl_queue := rest, crawl_visited := crawl_visited st @ [u]\<rparr>"
    have base: "\<And>r. st' = ?st1 \<Longrightarrow> (w' = w \<or> (r, w') = fetch u w) \<Longrightarrow> ?thesis"
      using Cons False by (intro disjI2 exI [of _ u] exI [of _ rest] exI [of _ "[]"]) auto
    from assms Cons False obtain ok where ok: "isAllowedGuideUrl newURL cfg u = Inr ok"
      by (auto simp add: crawlStep_def Let_def split: sum.splits)
    show ?thesis
    proof (cases ok)
      case False
      with assms Cons \<open>\<not> (u = [] \<or> u \<in> set (crawl_visited st))\<close> ok
      have "st' = ?st1" "w' = w" by (auto simp add: crawlStep_def Let_def)
      then show ?thesis using base by blast
    next
      case True
      obtain r w1 where f: "fetch u w = (r, w1)" by (cases "fetch u w")
      show ?thesis
      proof (cases r)
        case (Inl e)
        with assms Cons \<open>\<not> (u = [] \<or> u \<in> set (crawl_visited st))\<close> ok True f
        have "st' = ?st1" "w' = w1" by (auto simp add: crawlStep_def Let_def)
        with f show ?thesis using base [of r] by simp
      next
        case (Inr html)
        note pre = assms Cons \<open>\<not> (u = [] \<or> u \<in> set (crawl_visited st))\<close> ok True f Inr
        show ?thesis
        proof (cases "extractTitleFromHtml html u")
          case (Inl e)
          with pre have "st' = ?st1" "w' = w1" by (auto simp add: crawlStep_def Let_def)
          with f show ?thesis using base [of r] by simp
        next
          case title: (Inr title)
          show ?thesis
          proof (cases "stripHtmlToText html")
            case (Inl e)
            with pre title have "st' = ?st1" "w' = w1" by (auto simp add: crawlStep_def Let_def)
            with f show ?thesis using base [of r] by simp
          next
            case stripped: (Inr stripped)
            let ?st2 = "if length stripped > 80
                         then ?st1\<lparr>crawl_pages := crawl_pages ?st1
                                @ [\<lparr>page_url = u, page_title = title, page_text = take 12000 stripped\<rparr>]\<rparr>
                         else ?st1"
            have v2: "crawl_visited ?st2 = crawl_visited st @ [u]" "crawl_queue ?st2 = rest" by simp_all
            show ?thesis
            proof (cases "filterLinks newURL cfg (crawl_visited ?st2) (extractHrefLinks resolveURL html u)")
              case (Inl e)
              with pre title stripped have "st' = ?st2" "w' = w1"
                by (auto simp add: crawlStep_def Let_def)
              with v2 have q: "crawl_visited st' = crawl_visited st @ [u]" "crawl_queue st' = rest" "w' = w1"
                by simp_all
              from q f Cons False show ?thesis
                by (intro disjI2 exI [of _ u] exI [of _ rest] exI [of _ "[]"] exI [of _ r]) auto
            next
              case links: (Inr links)
              with pre title stripped have s: "st' = ?st2\<lparr>crawl_queue := crawl_queue ?st2 @ take 60 links\<rparr>" "w' = w1"
                by (auto simp add: crawlStep_def Let_def)
              from filterLinks_Inr [OF links] extractHrefLinks_distinct [of resolveURL html u]
              have "distinct links" and "\<forall>x \<in> set links. x \<notin> set (crawl_visited ?st2)" by auto
              then have l: "distinct links" "\<forall>x \<in> set links. x \<notin> set (crawl_visited st @ [u])"
                by (simp_all only: v2)
              then have t: "distinct (take 60 links)"
                "\<forall>x \<in> set (take 60 links). x \<notin> set (crawl_visited st @ [u])"
                by (auto dest: in_set_takeD)
              from s v2 have q: "crawl_visited st' = crawl_visited st @ [u]"
                "crawl_queue st' = rest @ take 60 links" by simp_all
              from q t f s(2) Cons False show ?thesis
                by (intro disjI2 exI [of _ u] exI [of _ rest] exI [of _ "take 60 links"] exI [of _ r]) auto
            qed
          qed
        qed
      qed
    qed
  qed
qed

lemma crawlStep_fetched:
  assumes "crawlStep newURL resolveURL (fetchLogged site) cfg (st, fetched) = Inr (st', fetched')"
    and "distinct fetched" and "set fetched \<subseteq> set (crawl_visited st)"
  shows "distinct fetched' \<and> set fetched' \<subseteq> set (crawl_visited st')"
  using crawlStep_cases [OF assms(1)] assms(2,3)
  by (auto simp add: fetchLogged_def)

lemma crawlTurns_fetched:
  "crawlTurns n newURL resolveURL (fetchLogged site) cfg (st, fetched) = Inr (st', fetched') \<Longrightarrow>
   distinct fetched \<Longrightarrow> set fetched \<subseteq> set (crawl_visited st) \<Longrightarrow>
   distinct fetched' \<and> set fetched' \<subseteq> set (crawl_visited st')"
proof (induction n arbitrary: st fetched)
  case 0
  then show ?case by simp
next
  case (Suc n)
  show ?case
  proof (cases "crawlGoesOn cfg st")
    case False
    with Suc.prems show ?thesis by simp
  next
    case True
    with Suc.prems(1) obtain st1 f1 where
      s: "crawlStep newURL resolveURL (fetchLogged site) cfg (st, fetched) = Inr (st1, f1)"
      and t: "crawlTurns n newURL resolveURL (fetchLogged site) cfg (st1, f1) = Inr (st', fetched')"
      by (auto split: sum.splits)
    from crawlStep_fetched [OF s Suc.prems(2,3)] have "distinct f1" "set f1 \<subseteq> set (crawl_visited st1)"
      by simp_all
    from Suc.IH [OF t this] show ?thesis .
  qed
qed

lemma crawlLoop_turns:
  assumes "crawlLoop newURL resolveURL fetch cfg s = Some res"
  shows "\<exists>n st. crawlTurns n newURL resolveURL fetch cfg s = Inr (st, snd res)"
proof (rule crawlLoop.raw_induct [where
      P = "\<lambda>newURL resolveURL fetch cfg s res.
             \<exists>n st. crawlTurns n newURL resolveURL fetch cfg s = Inr (st, snd res)",
      OF _ assms])
  fix loop newURL resolveURL cfg res
    and fetch :: "jsstring \<Rightarrow> 'a \<Rightarrow> (error + jsstring) \<times> 'a"
    and s :: "crawlState \<times> 'a"
  assume IH: "\<And>newURL resolveURL fetch cfg s res.
      loop newURL resolveURL fetch cfg s = Some res \<Longrightarrow>
      \<exists>n st. crawlTurns n newURL resolveURL fetch cfg s = Inr (st, snd res)"
    and body: "(if crawlGoesOn cfg (fst s)
      then case crawlStep newURL resolveURL fetch cfg s of
           Inl e \<Rightarrow> Some (Inl e, snd s)
           | Inr s' \<Rightarrow> loop newURL resolveURL fetch cfg s'
      else Some (Inr (crawl_pages (fst s)), snd s)) = Some res"
  show "\<exists>n st. crawlTurns n newURL resolveURL fetch cfg s = Inr (st, snd res)"
  proof (cases "crawlGoesOn cfg (fst s)")
    case False
    with body have "snd res = snd s" by auto
    then have "crawlTurns 0 newURL resolveURL fetch cfg s = Inr (fst s, snd res)" by simp
    then show ?thesis by blast
  next
    case True
    show ?thesis
    proof (cases "crawlStep newURL resolveURL fetch cfg s")
      case (Inl e)
      with True body have "snd res = snd s" by auto
      then have "crawlTurns 0 newURL resolveURL fetch cfg s = Inr (fst s, snd res)" by simp
      then show ?thesis by blast
    next
      case (Inr s')
      with True body have "loop newURL resolveURL fetch cfg s' = Some res" by simp
      from IH [OF this] obtain n st where
        "crawlTurns n newURL resolveURL fetch cfg s' = Inr (st, snd res)" by blast
      with True Inr have "crawlTurns (Suc n) newURL resolveURL fetch cfg s = Inr (st, snd res)"
        by simp
      then show ?thesis by blast
    qed
  qed
qed

text \<open>The example site, evaluated turn by turn.\<close>

lemmas eval_links =
  extractHrefLinks_def re_href_def resolveURL_plain_def newURL_plain_def unique_def
  startsWithCI_def startsWith_def ciEq_def run_def isWhiteSpace_def js_def

lemma links_root: "extractHrefLinks resolveURL_plain htmlRoot urlRoot = [urlA, urlB, js ''https://other.example/x.html'']"
  by (simp add: htmlRoot_def urlA_def urlB_def eval_links)

lemma links_A: "extractHrefLinks resolveURL_plain htmlA urlA = [urlB]"
  by (simp add: htmlA_def urlA_def urlB_def eval_links)

lemmas eval_title =
  extractTitleFromHtml_def re_title_def cleanInline_def re_spaces_def trim_def
  decodeHtmlEntities_def re_dec_entity_def re_hex_entity_def re_named_entity_def
  startsWithCI_def startsWith_def ciEq_def run_def isWhiteSpace_def js_def

lemma title_root: "extractTitleFromHtml htmlRoot urlRoot = Inr (js ''Portal'')"
  by (simp add: htmlRoot_def eval_title)

lemma title_A: "extractTitleFromHtml htmlA urlA = Inr (js ''A'')"
  by (simp add: htmlA_def eval_title)

lemma strip_root: "stripHtmlToText htmlRoot = Inr (js ''Portal A B X'')"
  by (simp add: htmlRoot_def eval_strip)

lemma strip_A: "stripHtmlToText htmlA = Inr (js ''A B'')"
  by (simp add: htmlA_def eval_strip)

lemmas eval_allowed =
  isAllowedGuideUrl_def newURL_plain_def cfg0_def js_def startsWith_def re_last_segment_def
  re_doc_def run_def startsWithCI_def ciEq_def

lemma allowed_examples:
  "isAllowedGuideUrl newURL_plain cfg0 urlRoot = Inr True"
  "isAllowedGuideUrl newURL_plain cfg0 urlA = Inr True"
  "isAllowedGuideUrl newURL_plain cfg0 urlB = Inr True"
  "isAllowedGuideUrl newURL_plain cfg0 (js ''https://other.example/x.html'') = Inr False"
  by (simp_all add: urlRoot_def urlA_def urlB_def eval_allowed)

lemma urls_distinct:
  "urlRoot \<noteq> urlA" "urlRoot \<noteq> urlB" "urlA \<noteq> urlB" "urlA \<noteq> urlRoot" "urlB \<noteq> urlRoot"
  "urlB \<noteq> urlA" "urlRoot \<noteq> []" "urlA \<noteq> []" "urlB \<noteq> []"
  "js ''https://other.example/x.html'' \<noteq> urlRoot"
  by (simp_all add: urlRoot_def urlA_def urlB_def js_def)

lemmas eval_crawl =
  crawlStep_def crawlGoesOn_def fetchLogged_def site0_def allowed_examples urls_distinct Let_def
  links_root links_A title_root title_A strip_root strip_A

lemma crawl_turn_1:
  "crawlStep newURL_plain resolveURL_plain (fetchLogged site0) cfg0
     (\<lparr>crawl_visited = [], crawl_queue = [urlRoot], crawl_pages = []\<rparr>, [])
   = Inr (\<lparr>crawl_visited = [urlRoot], crawl_queue = [urlA, urlB], crawl_pages = []\<rparr>, [urlRoot])"
  by (simp add: eval_crawl) (simp add: js_def)

lemma crawl_turn_2:
  "crawlStep newURL_plain resolveURL_plain (fetchLogged site0) cfg0
     (\<lparr>crawl_visited = [urlRoot], crawl_queue = [urlA, urlB], crawl_pages = []\<rparr>, [urlRoot])
   = Inr (\<lparr>crawl_visited = [urlRoot, urlA], crawl_queue = [urlB, urlB], crawl_pages = []\<rparr>,
          [urlRoot, urlA])"
  by (simp add: eval_crawl) (simp add: js_def)

lemma crawl_goes_on:
  "crawlGoesOn cfg0 \<lparr>crawl_visited = v, crawl_queue = u # q, crawl_pages = []\<rparr>"
  by (simp add: crawlGoesOn_def cfg0_def)

text \<open>
  Claim C6 as stated fails: a link is tested against the visited set only, not against
  the queue. On the example site the root enqueues \<open>a.html\<close> and \<open>b.html\<close>; when
  \<open>a.html\<close> is crawled, \<open>b.html\<close> is still waiting, not visited, and is enqueued a second
  time. After two turns of the loop the queue holds it twice.
\<close>

theorem crawl_enqueues_twice:
  "crawlTurns 2 newURL_plain resolveURL_plain (fetchLogged site0) cfg0
     (\<lparr>crawl_visited = [], crawl_queue = [urlRoot], crawl_pages = []\<rparr>, [])
   = Inr (\<lparr>crawl_visited = [urlRoot, urlA], crawl_queue = [urlB, urlB], crawl_pages = []\<rparr>,
          [urlRoot, urlA])"
  by (simp add: numeral_2_eq_2 crawl_goes_on crawl_turn_1 crawl_turn_2)

text \<open>
  Claim C6, amended. During every run of \<open>crawlGuidePages\<close>, for every link structure,
  any given URL is fetched at most once: the list of fetched URLs has no duplicates in
  every state the loop passes through, and in the final state when the crawl returns.
  In every turn the links appended to the queue are pairwise distinct and none of them is
  in the visited set at that moment (membership in the visited set is checked before
  enqueue).
\<close>

theorem crawl_fetches_once:
  "(\<forall>n st fetched.
       crawlTurns n newURL resolveURL (fetchLogged site) cfg (crawlStart root, []) = Inr (st, fetched)
       \<longrightarrow> distinct fetched \<and> set fetched \<subseteq> set (crawl_visited st))
   \<and> (\<forall>r fetched.
         crawlGuidePages newURL resolveURL (fetchLogged site) cfg [] = Some (r, fetched)
         \<longrightarrow> distinct fetched)
   \<and> (\<forall>st w st' w'.
         crawlStep newURL resolveURL fetch cfg (st, w) = Inr (st', w')
         \<longrightarrow> (\<exists>links. crawl_queue st' = tl (crawl_queue st) @ links \<and> distinct links
                \<and> (\<forall>x \<in> set links. x \<notin> set (crawl_visited st'))))"
proof (intro conjI allI impI)
  fix n st fetched
  assume "crawlTurns n newURL resolveURL (fetchLogged site) cfg (crawlStart root, []) = Inr (st, fetched)"
  from crawlTurns_fetched [OF this]
  show "distinct fetched" and "set fetched \<subseteq> set (crawl_visited st)" by simp_all
next
  fix r fetched
  assume a: "crawlGuidePages newURL resolveURL (fetchLogged site) cfg [] = Some (r, fetched)"
  show "distinct fetched"
  proof (cases "newURL (GUIDE_ROOT_URL cfg)")
    case None
    with a show ?thesis by (simp add: crawlGuidePages_def)
  next
    case (Some root)
    with a have "crawlLoop newURL resolveURL (fetchLogged site) cfg (crawlStart root, []) = Some (r, fetched)"
      by (simp add: crawlGuidePages_def)
    from crawlLoop_turns [OF this] obtain n st where
      "crawlTurns n newURL resolveURL (fetchLogged site) cfg (crawlStart root, []) = Inr (st, fetched)"
      by auto
    from crawlTurns_fetched [OF this] show ?thesis by simp
  qed
next
  fix st st' :: crawlState and w w'
  assume "crawlStep newURL resolveURL fetch cfg (st, w) = Inr (st', w')"
  from crawlStep_cases [OF this]
  consider (empty) "st' = st" "crawl_queue st = []"
    | (skip) u rest where "crawl_queue st = u # rest" "st' = st\<lparr>crawl_queue := rest\<rparr>"
    | (visit) u rest links where "crawl_queue st = u # rest" "crawl_queue st' = rest @ links"
        "distinct links" "\<forall>x \<in> set links. x \<notin> set (crawl_visited st')"
    by blast
  then show "\<exists>links. crawl_queue st' = tl (crawl_queue st) @ links \<and> distinct links
                \<and> (\<forall>x \<in> set links. x \<notin> set (crawl_visited st'))"
  proof cases
    case empty
    then have "crawl_queue st' = tl (crawl_queue st) @ [] \<and> distinct ([]::jsstring list)
        \<and> (\<forall>x \<in> set ([]::jsstring list). x \<notin> set (crawl_visited st'))" by simp
    then show ?thesis by blast
  next
    case skip
    then have "crawl_queue st' = tl (crawl_queue st) @ [] \<and> distinct ([]::jsstring list)
        \<and> (\<forall>x \<in> set ([]::jsstring list). x \<notin> set (crawl_visited st'))" by simp
    then show ?thesis by blast
  next
    case visit
    then have "crawl_queue st' = tl (crawl_queue st) @ links \<and> distinct links
        \<and> (\<forall>x \<in> set links. x \<notin> set (crawl_visited st'))" by simp
    then show ?thesis by blast
  qed
qed

theorem crawl_fetches_once_witness:
  "crawlTurns 2 newURL_plain resolveURL_plain (fetchLogged site0) cfg0
     (crawlStart \<lparr>href = urlRoot, host = js ''example.com'', pathname = js ''/portal/index.html''\<rparr>, [])
   = Inr (\<lparr>crawl_visited = [urlRoot, urlA], crawl_queue = [urlB, urlB], crawl_pages = []\<rparr>,
          [urlRoot, urlA])
   \<and> distinct [urlRoot, urlA]"
proof -
  let ?root = "\<lparr>href = urlRoot, host = js ''example.com'', pathname = js ''/portal/index.html''\<rparr>"
  have t: "crawlTurns 2 newURL_plain resolveURL_plain (fetchLogged site0) cfg0 (crawlStart ?root, [])
   = Inr (\<lparr>crawl_visited = [urlRoot, urlA], crawl_queue = [urlB, urlB], crawl_pages = []\<rparr>,
          [urlRoot, urlA])"
    by (simp add: crawlStart_def numeral_2_eq_2 crawl_goes_on crawl_turn_1 crawl_turn_2)
  from crawl_fetches_once [of newURL_plain resolveURL_plain site0 cfg0 ?root]
  have "\<forall>n st fetched.
       crawlTurns n newURL_plain resolveURL_plain (fetchLogged site0) cfg0 (crawlStart ?root, [])
         = Inr (st, fetched)
       \<longrightarrow> distinct fetched \<and> set fetched \<subseteq> set (crawl_visited st)"
    by (rule conjunct1)
  from this [rule_format, OF t] have "distinct [urlRoot, urlA]" by (rule conjunct1)
  with t show ?thesis by simp
qed

text \<open>
  A crawl of a site that answers no request does not throw: the failed fetch of the root
  is skipped and the crawl returns the empty list.
\<close>

lemma crawlGuidePages_site_down:
  "crawlGuidePages newURL_plain resolveURL_plain
     (fetchLogged (\<lambda>u. Inl (Error (js ''fetch failed: 503'')))) cfg0 []
   = Some (Inr [], [urlRoot])"
proof -
  let ?fetch = "fetchLogged (\<lambda>u. Inl (Error (js ''fetch failed: 503'')))"
  have r: "newURL_plain (GUIDE_ROOT_URL cfg0)
      = Some \<lparr>href = urlRoot, host = js ''example.com'', pathname = js ''/portal/index.html''\<rparr>"
    by (simp add: newURL_plain_def cfg0_def urlRoot_def js_def startsWith_def)
  have s: "crawlStep newURL_plain resolveURL_plain ?fetch cfg0
             (\<lparr>crawl_visited = [], crawl_queue = [urlRoot], crawl_pages = []\<rparr>, [])
           = Inr (\<lparr>crawl_visited = [urlRoot], crawl_queue = [], crawl_pages = []\<rparr>, [urlRoot])"
    by (simp add: crawlStep_def fetchLogged_def allowed_examples urls_distinct)
  have "crawlLoop newURL_plain resolveURL_plain ?fetch cfg0
          (\<lparr>crawl_visited = [urlRoot], crawl_queue = [], crawl_pages = []\<rparr>, [urlRoot])
        = Some (Inr [], [urlRoot])"
    by (subst crawlLoop.simps) (simp add: crawlGoesOn_def)
  then have "crawlLoop newURL_plain resolveURL_plain ?fetch cfg0
          (\<lparr>crawl_visited = [], crawl_queue = [urlRoot], crawl_pages = []\<rparr>, [])
        = Some (Inr [], [urlRoot])"
    by (subst crawlLoop.simps) (simp add: crawl_goes_on s)
  then show ?thesis by (simp add: crawlGuidePages_def r crawlStart_def)
qed

section \<open>Properties of the guide cache\<close>

text \<open>The two paths of \<open>getGuidePages\<close> that the claims do not name.\<close>

lemma getGuidePages_crawl_succeeds:
  assumes "GUIDE_CONTEXT_ENABLED cfg"
    and "\<not> (pages cache \<noteq> [] \<and> now < expiresAt cache)"
    and "crawl w = (Inr ps, w')"
  shows "getGuidePages cfg crawl now (cache, w)
         = (ps, cache\<lparr>pages := ps, fetchedAt := now,
                   expiresAt := now + GUIDE_CACHE_TTL_MS cfg, lastError := []\<rparr>, w')"
  using assms by (auto simp add: getGuidePages_def)

lemma getGuidePages_disabled:
  "\<not> GUIDE_CONTEXT_ENABLED cfg \<Longrightarrow> getGuidePages cfg crawl now s = ([], s)"
  by (cases s) (simp add: getGuidePages_def)

text \<open>
  Claim C3 as stated fails: the cache entry is also written by a crawl that throws, or
  that finds no page, and such an entry has no pages and an expiry in the future. The
  test \<open>guideCache.pages.length && guideCache.expiresAt > now\<close> is then false, so the
  next call runs the crawl again before the expiry and writes the entry anew. Here the
  first call, at time 0, throws and leaves \<open>cacheFailed\<close>, which expires at 300000; the
  call at time 5 crawls all the same (the world counts a second crawl), returns what that
  crawl found and replaces the entry.
\<close>

theorem getGuidePages_crawls_before_expiry:
  "getGuidePages cfg0 crawlThrows 0 (guideCache0, 0) = ([], cacheFailed, 1)
   \<and> 5 < expiresAt cacheFailed
   \<and> getGuidePages cfg0 crawlFindsB 5 (cacheFailed, 1)
       = ([pageB],
          \<lparr>pages = [pageB], fetchedAt = 5, expiresAt = 21600005, lastError = []\<rparr>, 2)
   \<and> getGuidePages cfg0 crawlThrows 5 (cacheFailed, 1)
       = ([], cacheFailed\<lparr>fetchedAt := 5, expiresAt := 300005\<rparr>, 2)"
  by (simp add: getGuidePages_def cfg0_def guideCache0_def cacheFailed_def crawlThrows_def
      crawlFindsB_def js_def)

text \<open>
  Claim C3, amended. When context gathering is enabled, the cache holds pages
  (\<open>guideCache.pages.length\<close> is not zero) and its expiry lies after \<open>now\<close>, the call
  returns the cached pages, leaves the cache as it is and does not run the crawl: the
  world the crawl would act on is unchanged, whatever the crawl is.
\<close>

theorem getGuidePages_fresh_cache:
  assumes "GUIDE_CONTEXT_ENABLED cfg" and "pages cache \<noteq> []" and "now < expiresAt cache"
  shows "getGuidePages cfg crawl now (cache, w) = (pages cache, cache, w)"
  using assms by (simp add: getGuidePages_def)

theorem getGuidePages_fresh_cache_witness:
  "GUIDE_CONTEXT_ENABLED cfg0 \<and> pages cacheA \<noteq> [] \<and> 5 < expiresAt cacheA
   \<and> getGuidePages cfg0 crawlThrows 5 (cacheA, 0) = ([pageA], cacheA, 0)"
proof -
  have h: "GUIDE_CONTEXT_ENABLED cfg0" "pages cacheA \<noteq> []" "5 < expiresAt cacheA"
    by (simp_all add: cfg0_def cacheA_def)
  show ?thesis
    using h getGuidePages_fresh_cache [OF h, of crawlThrows 0] by (simp add: cacheA_def)
qed

text \<open>
  Claim C1. A call that reaches the crawl (context gathering is enabled, and the cache is
  empty or expired) and whose crawl throws returns the pages the cache held, which are
  those of the last successful crawl; it leaves them in the cache, records a non-empty
  \<open>lastError\<close>, and sets \<open>fetchedAt\<close> to \<open>now\<close> and \<open>expiresAt\<close> to \<open>now\<close> plus the
  smaller of five minutes and the configured TTL. What it returns is non-empty whenever
  the cached pages were.
\<close>

theorem getGuidePages_crawl_throws:
  assumes "GUIDE_CONTEXT_ENABLED cfg"
    and "\<not> (pages cache \<noteq> [] \<and> now < expiresAt cache)"
    and "crawl w = (Inl err, w')"
  shows "case getGuidePages cfg crawl now (cache, w) of
           (r, cache', w'') \<Rightarrow>
             r = pages cache \<and> pages cache' = pages cache \<and> lastError cache' \<noteq> []
             \<and> fetchedAt cache' = now
             \<and> expiresAt cache' = now + min 300000 (GUIDE_CACHE_TTL_MS cfg)
             \<and> w'' = w' \<and> (pages cache \<noteq> [] \<longrightarrow> r \<noteq> [])"
  using assms by (auto simp add: getGuidePages_def js_def)

theorem getGuidePages_crawl_throws_witness:
  "GUIDE_CONTEXT_ENABLED cfg0
   \<and> \<not> (pages cacheA \<noteq> [] \<and> 21600000 < expiresAt cacheA)
   \<and> crawlThrows 1 = (Inl (TypeError (js ''Invalid URL'')), 2)
   \<and> getGuidePages cfg0 crawlThrows 21600000 (cacheA, 1) =
       ([pageA],
        \<lparr>pages = [pageA], fetchedAt = 21600000, expiresAt = 21900000,
         lastError = js ''Invalid URL''\<rparr>, 2)"
proof -
  have h: "GUIDE_CONTEXT_ENABLED cfg0"
    "\<not> (pages cacheA \<noteq> [] \<and> 21600000 < expiresAt cacheA)"
    "crawlThrows 1 = (Inl (TypeError (js ''Invalid URL'')), 2)"
    by (simp_all add: cfg0_def cacheA_def crawlThrows_def)
  show ?thesis
    using h getGuidePages_crawl_throws [where crawl = crawlThrows and w = 1, OF h]
    by (simp add: getGuidePages_def cfg0_def cacheA_def js_def)
qed

text \<open>
  Claim C2 as stated fails: a crawl that completes without finding a page is a success,
  and its empty result replaces the cached pages (a crawl whose fetches all fail is such
  a crawl, see \<open>crawlGuidePages_site_down\<close>). Here the cache is filled with \<open>pageA\<close>
  at time 0, and the call at its expiry returns the empty list.
\<close>

theorem getGuidePages_served_empty_after_nonempty:
  "pages (fst (snd (getGuidePages cfg0 crawlThenNothing 0 (guideCache0, 0)))) = [pageA]
   \<and> getGuidePagesCalls cfg0 crawlThenNothing [0, 21600000] (guideCache0, 0) = [[pageA], []]"
  by (simp add: getGuidePages_def cfg0_def guideCache0_def crawlThenNothing_def)

lemma getGuidePages_keeps_nonempty:
  assumes "GUIDE_CONTEXT_ENABLED cfg" and "pages (fst s) \<noteq> []"
    and "\<forall>w. fst (crawl w) \<noteq> Inr []"
  shows "fst (getGuidePages cfg crawl now s) \<noteq> []
         \<and> pages (fst (snd (getGuidePages cfg crawl now s))) \<noteq> []"
proof (cases s)
  case (Pair cache w)
  obtain o1 w' where c: "crawl w = (o1, w')" by (cases "crawl w")
  with assms(3) have "o1 \<noteq> Inr []" by (metis fst_conv)
  with assms(1,2) Pair c show ?thesis
    by (cases o1) (auto simp add: getGuidePages_def)
qed

text \<open>
  Claim C2, amended. In a run whose crawls never succeed with an empty page list, once
  the cache holds a non-empty page list no later call returns an empty one (context
  gathering being enabled, as it must be for the cache to hold pages).
\<close>

theorem getGuidePages_never_empty_again:
  assumes "GUIDE_CONTEXT_ENABLED cfg" and "pages (fst s) \<noteq> []"
    and "\<forall>w. fst (crawl w) \<noteq> Inr []"
  shows "[] \<notin> set (getGuidePagesCalls cfg crawl nows s)"
  using assms(2)
proof (induction nows arbitrary: s)
  case Nil
  then show ?case by simp
next
  case (Cons now nows)
  obtain r s' where g: "getGuidePages cfg crawl now s = (r, s')"
    by (cases "getGuidePages cfg crawl now s")
  from getGuidePages_keeps_nonempty [OF assms(1) Cons.prems assms(3), of now] g
  have "r \<noteq> []" and "pages (fst s') \<noteq> []" by auto
  with Cons.IH [of s'] g show ?case by auto
qed

theorem getGuidePages_never_empty_again_witness:
  "GUIDE_CONTEXT_ENABLED cfg0 \<and> pages (fst (cacheA, 0::nat)) \<noteq> []
   \<and> (\<forall>w. fst (crawlFindsB w) \<noteq> Inr [])
   \<and> getGuidePagesCalls cfg0 crawlFindsB [5, 21600000] (cacheA, 0) = [[pageA], [pageB]]
   \<and> [] \<notin> set (getGuidePagesCalls cfg0 crawlFindsB [5, 21600000] (cacheA, 0))"
proof -
  have h: "GUIDE_CONTEXT_ENABLED cfg0" "pages (fst (cacheA, 0::nat)) \<noteq> []"
    "\<forall>w. fst (crawlFindsB w) \<noteq> Inr []"
    by (simp_all add: cfg0_def cacheA_def crawlFindsB_def)
  have e: "getGuidePagesCalls cfg0 crawlFindsB [5, 21600000] (cacheA, 0) = [[pageA], [pageB]]"
    by (simp add: getGuidePages_def cfg0_def cacheA_def crawlFindsB_def)
  show ?thesis
    using h e getGuidePages_never_empty_again [OF h, of "[5, 21600000]"] by simp
qed

section \<open>Properties of the tokenizer\<close>

lemmas eval_token =
  tokenize_def re_token_def run_def isAlnum_def isTokenChar_def isCJK_def unique_def
  stopWords_def js_def toLowerCaseASCII_def

text \<open>
  Claim C8. For every input string (and whatever \<open>toLowerCase\<close> does to it), no token
  that \<open>tokenize\<close> returns is a stop word, and no token is returned twice.
\<close>

theorem tokenize_no_stop_word_no_duplicate:
  "(\<forall>w \<in> set (tokenize toLowerCase s). w \<notin> set stopWords)
   \<and> distinct (tokenize toLowerCase s)"
  by (simp add: tokenize_def unique_set unique_distinct)

text \<open>
  The input of the witness is \<open>settei\<close> (a stop word), \<open>settei-gamen\<close> (one token of four
  kanji) and \<open>Kintone view VIEW\<close>.
\<close>

theorem tokenize_no_stop_word_no_duplicate_witness:
  "tokenize toLowerCaseASCII
     ([35373, 23450, 32, 35373, 23450, 30011, 38754] @ js '' Kintone view VIEW'')
     = [[35373, 23450, 30011, 38754], js ''view'']
   \<and> [35373, 23450, 30011, 38754] \<notin> set stopWords \<and> js ''view'' \<notin> set stopWords
   \<and> distinct (tokenize toLowerCaseASCII
       ([35373, 23450, 32, 35373, 23450, 30011, 38754] @ js '' Kintone view VIEW''))"
proof -
  have e: "tokenize toLowerCaseASCII
     ([35373, 23450, 32, 35373, 23450, 30011, 38754] @ js '' Kintone view VIEW'')
     = [[35373, 23450, 30011, 38754], js ''view'']"
    by (simp add: eval_token)
  show ?thesis
    using e tokenize_no_stop_word_no_duplicate [of toLowerCaseASCII
        "[35373, 23450, 32, 35373, 23450, 30011, 38754] @ js '' Kintone view VIEW''"]
    by simp
qed




section \<open>Properties of the scorer\<close>















section \<open>Properties of the snippet\<close>

lemma indexOf_char_None: "indexOf s [c] = None \<Longrightarrow> c \<notin> set s"
  by (induction s) (auto simp: startsWith_def split: if_splits)

lemma indexOf_char_Some:
  "indexOf s [c] = Some n \<Longrightarrow> n < length s \<and> s ! n = c \<and> (\<forall>j<n. s ! j \<noteq> c)"
proof (induction s arbitrary: n)
  case Nil
  then show ?case by simp
next
  case (Cons a s)
  show ?case
  proof (cases "a = c")
    case True
    with Cons.prems show ?thesis by (simp add: startsWith_def)
  next
    case False
    with Cons.prems obtain k where k: "indexOf s [c] = Some k" "n = Suc k"
      by (auto simp: startsWith_def)
    from Cons.IH [OF k(1)] False k(2) show ?thesis
      by (auto simp: nth_Cons split: nat.splits)
  qed
qed

lemma indexOfFrom_char_None:
  assumes "indexOfFrom s [c] i = None" and "i \<le> j" and "j < length s"
  shows "s ! j \<noteq> c"
proof -
  from assms(1) have "c \<notin> set (drop i s)"
    by (auto simp: indexOfFrom_def dest: indexOf_char_None)
  moreover have "s ! j \<in> set (drop i s)"
  proof -
    have "j - i < length (drop i s)" using assms(2,3) by simp
    then have "drop i s ! (j - i) \<in> set (drop i s)" by (rule nth_mem)
    then show ?thesis using assms(2,3) by simp
  qed
  ultimately show ?thesis by auto
qed

lemma indexOfFrom_char_Some:
  assumes "indexOfFrom s [c] i = Some n"
  shows "i \<le> n \<and> n < length s \<and> s ! n = c \<and> (\<forall>j. i \<le> j \<and> j < n \<longrightarrow> s ! j \<noteq> c)"
proof -
  from assms obtain k where k: "indexOf (drop i s) [c] = Some k" "n = k + min i (length s)"
    by (auto simp: indexOfFrom_def)
  from indexOf_char_Some [OF k(1)]
  have a: "k < length s - i" "drop i s ! k = c" "\<forall>j<k. drop i s ! j \<noteq> c" by auto
  from a(1) have il: "i < length s" by simp
  with k(2) have n: "n = i + k" by simp
  have "\<forall>j. i \<le> j \<and> j < n \<longrightarrow> s ! j \<noteq> c"
  proof (intro allI impI)
    fix j assume j: "i \<le> j \<and> j < n"
    then have "j - i < k" using n by arith
    with a(3) have "drop i s ! (j - i) \<noteq> c" by simp
    then show "s ! j \<noteq> c" using j il by simp
  qed
  with a n il show ?thesis by simp
qed

text \<open>Evaluation on long runs of one character.\<close>

lemma replaceAll_replicate:
  "\<forall>t. m (c # t) = None \<Longrightarrow>
   replaceAll m rep (replicate n c @ t) = replicate n c @ replaceAll m rep t"
  by (induction n) auto

lemma re_crlf_a: "re_crlf (97 # t) = None"
  by (simp add: re_crlf_def)

lemma re_blanks_nl_a: "re_blanks_nl (97 # t) = None"
  by (simp add: re_blanks_nl_def run_def isBlank_def)

lemma re_nl3_a: "re_nl3 (97 # t) = None"
  by (simp add: re_nl3_def run_def)

lemmas eval_normalize =
  re_crlf_def re_blanks_nl_def re_nl3_def run_def isBlank_def startsWith_def trim_def
  isWhiteSpace_def

lemma normalizeMultiline_pageLongLine:
  "normalizeMultiline (replicate 600 97 @ [10, 98]) = replicate 600 97 @ [10, 98]"
  apply (simp add: normalizeMultiline_def replaceAll_replicate re_crlf_a re_blanks_nl_a re_nl3_a)
  apply (simp add: eval_normalize)
  done

lemma normalizeMultiline_pageOneLine:
  "normalizeMultiline (replicate 599 97 @ [98]) = replicate 599 97 @ [98]"
  apply (simp add: normalizeMultiline_def replaceAll_replicate re_crlf_a re_blanks_nl_a re_nl3_a)
  apply (simp add: eval_normalize)
  done

lemma toLowerCaseASCII_replicate:
  "toLowerCaseASCII (replicate n 97 @ t) = replicate n 97 @ toLowerCaseASCII t"
  by (simp add: toLowerCaseASCII_def)

lemma indexOf_replicate_same: "0 < n \<Longrightarrow> indexOf (replicate n c @ t) [c] = Some 0"
  by (cases n) (auto simp: startsWith_def)

lemma indexOf_replicate_other:
  "c \<noteq> d \<Longrightarrow> indexOf (replicate n c @ t) [d] = map_option (\<lambda>k. k + n) (indexOf t [d])"
  by (induction n) (auto simp: startsWith_def option.map_comp comp_def option.map_ident)

lemma lastIndexOf_0_replicate:
  "0 < n \<Longrightarrow> c \<noteq> d \<Longrightarrow> lastIndexOf (replicate n c @ t) d 0 = None"
  by (cases n) auto

lemmas eval_snippet =
  pickGuideSnippet_def toLowerCaseASCII_replicate indexOf_replicate_same
  lastIndexOf_0_replicate indexOfFrom_def indexOf_replicate_other slice_def trim_def
  isWhiteSpace_def toLowerCaseASCII_def startsWith_def

lemma pickGuideSnippet_pageLongLine:
  "pickGuideSnippet toLowerCaseASCII pageLongLine [js ''a''] 540 = replicate 600 97"
  by (simp add: pageLongLine_def normalizeMultiline_pageLongLine js_def eval_snippet)

text \<open>
  Claim C9 as stated fails: the snippet is cut from the normalized text, so a page text
  that starts with a blank does not come back as it is.
\<close>

theorem pickGuideSnippet_no_tokens_not_raw_text:
  "pickGuideSnippet toLowerCaseASCII pageBlankFirst [] 540 = js ''a''
   \<and> take 540 (page_text pageBlankFirst) = js '' a''"
  by (simp add: pickGuideSnippet_def pageBlankFirst_def normalizeMultiline_def js_def
      slice_def eval_normalize)

text \<open>
  Claim C9, amended. With no tokens, \<open>pickGuideSnippet\<close> returns the first 540 characters
  of the page text after \<open>normalizeMultiline\<close>, or all of that normalized text if it is
  shorter.
\<close>

theorem pickGuideSnippet_no_tokens:
  "pickGuideSnippet toLowerCase page [] 540 = take 540 (normalizeMultiline (page_text page))"
  by (simp add: pickGuideSnippet_def slice_def Let_def)

theorem pickGuideSnippet_no_tokens_witness:
  "pickGuideSnippet toLowerCaseASCII pageLongLine [] 540 = replicate 540 97"
  using pickGuideSnippet_no_tokens [of toLowerCaseASCII pageLongLine]
  by (simp add: pageLongLine_def normalizeMultiline_pageLongLine)

text \<open>
  Claim C10 as stated fails in its second case: when no line feed stands at or after
  position \<open>start + limit\<close> and the text goes on beyond that position, the snippet ends
  there, not at the end of the text. The text of \<open>pageOneLine\<close> has 600 characters, no
  line feed, and ends in \<open>b\<close>; the snippet is its first 540 characters.
\<close>

theorem pickGuideSnippet_stops_before_text_end:
  "normalizeMultiline (page_text pageOneLine) = replicate 599 97 @ [98]
   \<and> pickGuideSnippet toLowerCaseASCII pageOneLine [js ''a''] 540 = replicate 540 97"
  by (simp add: pageOneLine_def normalizeMultiline_pageOneLine js_def eval_snippet)

text \<open>
  Claim C10, amended. Let \<open>src\<close> be the normalized text, \<open>hit\<close> the position the token
  loop finds and \<open>e0 = min (length src) (max 0 (hit - 220) + limit)\<close>. The snippet is a
  slice of \<open>src\<close>, trimmed, that ends at the first line feed at or after \<open>e0\<close>, or at
  \<open>e0\<close> itself if there is none. So a snippet can be longer than the limit: for
  \<open>pageLongLine\<close>, token \<open>a\<close> and limit 540 it has 600 characters.
\<close>

theorem pickGuideSnippet_end:
  assumes "normalizeMultiline (page_text page) = src" and "src \<noteq> []" and "tokens \<noteq> []"
    and "hitLoop toLowerCase (toLowerCase src) tokens None = Some hit"
    and "e0 = min (length src) (hit - 220 + limit)"
  shows "(\<exists>start e. pickGuideSnippet toLowerCase page tokens limit = trim (slice start e src)
           \<and> (if \<exists>j. e0 \<le> j \<and> j < length src \<and> src ! j = 10
               then e0 \<le> e \<and> e < length src \<and> src ! e = 10
                    \<and> (\<forall>j. e0 \<le> j \<and> j < e \<longrightarrow> src ! j \<noteq> 10)
               else e = e0))
         \<and> (\<exists>p tks. 540 < length (pickGuideSnippet toLowerCaseASCII p tks 540))"
proof -
  have "\<exists>start e. pickGuideSnippet toLowerCase page tokens limit = trim (slice start e src)
           \<and> (if \<exists>j. e0 \<le> j \<and> j < length src \<and> src ! j = 10
               then e0 \<le> e \<and> e < length src \<and> src ! e = 10
                    \<and> (\<forall>j. e0 \<le> j \<and> j < e \<longrightarrow> src ! j \<noteq> 10)
               else e = e0)"
  proof (cases "indexOfFrom src [10] e0")
    case None
    then have "\<not> (\<exists>j. e0 \<le> j \<and> j < length src \<and> src ! j = 10)"
      using indexOfFrom_char_None by blast
    then show ?thesis using assms None
      by (auto simp add: pickGuideSnippet_def Let_def)
  next
    case (Some n)
    from indexOfFrom_char_Some [OF Some] show ?thesis using assms Some
      by (auto simp add: pickGuideSnippet_def Let_def)
  qed
  moreover have "540 < length (pickGuideSnippet toLowerCaseASCII pageLongLine [js ''a''] 540)"
    by (simp add: pickGuideSnippet_pageLongLine)
  ultimately show ?thesis by blast
qed

theorem pickGuideSnippet_end_witness:
  "normalizeMultiline (page_text pageLongLine) = replicate 600 97 @ [10, 98]
   \<and> hitLoop toLowerCaseASCII (toLowerCaseASCII (replicate 600 97 @ [10, 98])) [js ''a''] None
       = Some 0
   \<and> (540::nat) = min (length (replicate 600 (97::nat) @ [10, 98])) (0 - 220 + 540)
   \<and> (\<exists>start e. pickGuideSnippet toLowerCaseASCII pageLongLine [js ''a''] 540
          = trim (slice start e (replicate 600 97 @ [10, 98]))
        \<and> e = 600)"
proof -
  let ?src = "replicate 600 (97::nat) @ [10, 98]"
  have h: "normalizeMultiline (page_text pageLongLine) = ?src" "?src \<noteq> []"
    "[js ''a''] \<noteq> []"
    "hitLoop toLowerCaseASCII (toLowerCaseASCII ?src) [js ''a''] None = Some 0"
    "(540::nat) = min (length ?src) (0 - 220 + 540)"
    by (simp_all add: pageLongLine_def normalizeMultiline_pageLongLine js_def
        toLowerCaseASCII_replicate indexOf_replicate_same toLowerCaseASCII_def)
  have nl: "\<exists>j. 540 \<le> j \<and> j < length ?src \<and> ?src ! j = 10"
    by (rule exI [of _ 600]) (simp add: nth_append)
  have "\<forall>j. 540 \<le> j \<and> j < 600 \<longrightarrow> ?src ! j \<noteq> 10" by (simp add: nth_append)
  from pickGuideSnippet_end [OF h] nl
  obtain start e where se:
    "pickGuideSnippet toLowerCaseASCII pageLongLine [js ''a''] 540 = trim (slice start e ?src)"
    "540 \<le> e" "e < length ?src" "?src ! e = 10" "\<forall>j. 540 \<le> j \<and> j < e \<longrightarrow> ?src ! j \<noteq> 10"
    by auto
  have "e = 600"
  proof (rule ccontr)
    assume ne: "e \<noteq> 600"
    from se(3) have "e < 602" by simp
    with ne have "e < 600 \<or> e = 601" by arith
    then show False
    proof
      assume "e < 600" with se(4) show False by (simp add: nth_append)
    next
      assume "e = 601" with se(4) show False by (simp add: nth_append)
    qed
  qed
  with se(1) h show ?thesis by blast
qed

end
